theory Spec2Isabelle
  imports Main "HOL-Library.Word"
begin

section \<open>The resource report poller of the GCS server\<close>

text \<open>
  A shallow embedding of \<^verbatim>\<open>src/ray/gcs/gcs_server/gcs_resource_report_poller.cc\<close>.
  Every member function becomes a function on the record \<open>poller\<close>; the clock reading
  \<^verbatim>\<open>absl::GetCurrentTimeNanos()\<close> is an argument of the function that reads it. All
  member functions that touch the registry, the queue or the counter hold \<^verbatim>\<open>mutex_\<close> for
  their whole body, so each one is a single atomic step. A read of memory that has been
  freed is undefined behaviour in the source and the error \<open>UseAfterFree\<close> here.
\<close>

subsection \<open>Data\<close>

type_synonym NodeID = string
type_synonym ResourcesData = string

text \<open>
  A \<^verbatim>\<open>std::shared_ptr<PullState>\<close> is an index into the list \<open>heap\<close> of all
  \<^verbatim>\<open>PullState\<close> objects made so far, so two pointers are the same object exactly when
  they are the same index. \<^verbatim>\<open>std::make_shared\<close> appends to the list. An object is
  freed when the last \<^verbatim>\<open>shared_ptr\<close> to it is destroyed; its entry stays in the list
  as memory that must not be read any more (see \<open>alive\<close> below).
\<close>

type_synonym ptr = nat

text \<open>
  The callback objects handed to \<^verbatim>\<open>RequestResourceReport\<close> are numbered in the order
  of the calls. Each is the closure of the lambda \<^verbatim>\<open>[this, state]\<close> and holds its own
  copy of the \<^verbatim>\<open>shared_ptr\<close>.
\<close>

type_synonym callback = nat

record Address =
  raylet_id :: string
  ip_address :: string
  port :: "32 word"

record GcsNodeInfo =
  info_node_id :: string
  node_manager_address :: string
  node_manager_port :: "32 word"

text \<open>
  Modelled from the spec: the header \<^verbatim>\<open>gcs_resource_report_poller.h\<close>, which declares
  \<^verbatim>\<open>PullState\<close> and the member variables, is not among the sources. The fields are the
  ones the source file reads and writes. The times are 64-bit signed integers: the
  source compares them with an \<^verbatim>\<open>int64_t\<close> and stores \<^verbatim>\<open>-1\<close>, and words compared with
  the signed order model them.
\<close>

record PullState =
  node_id :: NodeID
  address :: Address
  last_pull_time :: "64 word"
  next_pull_time :: "64 word"

text \<open>
  A function object handed to \<^verbatim>\<open>polling_service_.post\<close>. The one posted by a callback
  is the lambda \<^verbatim>\<open>[&] { NodeResourceReportReceived(state); }\<close>: it captures by reference,
  so what it holds is the address of the member \<^verbatim>\<open>state\<close> of the callback that posted
  it, not a pointer of its own.
\<close>

datatype handler =
    PostedTryPullResourceReport
  | PostedNodeResourceReportReceived callback

datatype error =
    NodeAddedTwice NodeID
  | NullPointerDereference
  | TerminateCalled
  | UseAfterFree

text \<open>
  Modelled from the spec: the member variables, declared in the same header. The two
  pull counts are 64-bit unsigned integers, the type of the constructor's argument, and
  \<open>poll_period_ms\<close> is a 64-bit integer like the times it is added to. The record has
  the members of the class, without the trailing underscore of the source, followed by
  the state of the collaborators the poller calls into:
  \<^item> \<open>polling_thread\<close> is the \<^verbatim>\<open>std::unique_ptr<std::thread>\<close>: \<open>None\<close> is the null
    pointer, \<open>Some j\<close> a thread object that is joinable exactly when \<open>j\<close> holds;
  \<^item> \<open>polling_service\<close> is the list of handlers posted to the \<^verbatim>\<open>io_service\<close> and not
    yet run, \<open>polling_service_stopped\<close> whether \<^verbatim>\<open>stop()\<close> has been called on it;
  \<^item> \<open>requested\<close> is the log of the \<^verbatim>\<open>RequestResourceReport\<close> calls: entry \<open>c\<close> is
    the \<^verbatim>\<open>state\<close> pointer captured by callback \<open>c\<close>; \<open>raylet_requests\<close> lists the
    callbacks that the RPC client has not invoked yet, \<open>completed_callbacks\<close> those it
    has invoked and not yet destroyed;
  \<^item> \<open>gcs_resource_manager\<close> is the log of the arguments of
    \<^verbatim>\<open>UpdateFromResourceReport\<close>.
\<close>

record poller =
  max_concurrent_pulls :: "64 word"
  inflight_pulls :: "64 word"
  poll_period_ms :: "64 word"
  nodes :: "(NodeID \<times> ptr) list"
  to_pull_queue :: "ptr list"
  heap :: "PullState list"
  polling_thread :: "bool option"
  polling_service :: "handler list"
  polling_service_stopped :: bool
  ticker_started :: bool
  raylet_requests :: "callback list"
  completed_callbacks :: "callback list"
  requested :: "ptr list"
  gcs_resource_manager :: "ResourcesData list"

subsection \<open>The registry \<^verbatim>\<open>nodes_\<close>\<close>

text \<open>
  The registry is a hash map with unique keys, kept here as an association list so that
  the absence of duplicate keys is a property to prove and not one of the type.
  \<^verbatim>\<open>count\<close> answers 0 or 1, \<^verbatim>\<open>emplace\<close> leaves the map alone when the key is there,
  \<^verbatim>\<open>erase\<close> by key removes the entry when there is one.
\<close>

definition nodes_count :: "(NodeID \<times> ptr) list \<Rightarrow> NodeID \<Rightarrow> nat" where
  "nodes_count ns k = (if k \<in> fst ` set ns then 1 else 0)"

definition nodes_emplace :: "(NodeID \<times> ptr) list \<Rightarrow> NodeID \<Rightarrow> ptr \<Rightarrow> (NodeID \<times> ptr) list" where
  "nodes_emplace ns k v = (if k \<in> fst ` set ns then ns else ns @ [(k, v)])"

definition nodes_erase :: "(NodeID \<times> ptr) list \<Rightarrow> NodeID \<Rightarrow> (NodeID \<times> ptr) list" where
  "nodes_erase ns k = filter (\<lambda>e. fst e \<noteq> k) ns"

text \<open>
  Modelled from the spec: \<^verbatim>\<open>NodeID::FromBinary\<close> of \<^verbatim>\<open>ray/common/id.h\<close> is not among
  the sources. The identity of a peer is the binary string of the notification itself.
\<close>

definition FromBinary :: "string \<Rightarrow> NodeID" where
  "FromBinary b = b"

subsection \<open>Construction, start and stop\<close>

text \<open>
  The second argument stands for
  \<^verbatim>\<open>RayConfig::instance().gcs_resource_report_poll_period_ms()\<close>.
\<close>

definition GcsResourceReportPoller :: "64 word \<Rightarrow> 64 word \<Rightarrow> poller" where
  "GcsResourceReportPoller max_pulls period =
     \<lparr>max_concurrent_pulls = max_pulls, inflight_pulls = 0, poll_period_ms = period,
      nodes = [], to_pull_queue = [], heap = [], polling_thread = None,
      polling_service = [], polling_service_stopped = False, ticker_started = False,
      raylet_requests = [], completed_callbacks = [], requested = [],
      gcs_resource_manager = []\<rparr>"

text \<open>
  \<^verbatim>\<open>polling_thread_.reset(new std::thread{...})\<close> destroys the thread object held before;
  destroying a joinable \<^verbatim>\<open>std::thread\<close> calls \<^verbatim>\<open>std::terminate\<close>.
\<close>

definition Start :: "poller \<Rightarrow> error + poller" where
  "Start s =
     (if polling_thread s = Some True then Inl TerminateCalled
      else Inr (s\<lparr>polling_thread := Some True, ticker_started := True\<rparr>))"

text \<open>
  \<^verbatim>\<open>polling_thread_->joinable()\<close> dereferences the pointer without a test; \<^verbatim>\<open>join\<close>
  leaves the thread object not joinable.
\<close>

definition Stop :: "poller \<Rightarrow> error + poller" where
  "Stop s =
     (let s1 = s\<lparr>polling_service_stopped := True\<rparr> in
      case polling_thread s1 of
        None \<Rightarrow> Inl NullPointerDereference
      | Some j \<Rightarrow> Inr (if j then s1\<lparr>polling_thread := Some False\<rparr> else s1))"

text \<open>The destructor \<^verbatim>\<open>~GcsResourceReportPoller\<close> is a call of \<^verbatim>\<open>Stop\<close>.\<close>

definition destructor :: "poller \<Rightarrow> error + poller" where
  "destructor s = Stop s"

subsection \<open>Membership notifications\<close>

definition HandleNodeAdded :: "poller \<Rightarrow> GcsNodeInfo \<Rightarrow> 64 word \<Rightarrow> error + poller" where
  "HandleNodeAdded s node_info now =
     (let nid = FromBinary (info_node_id node_info) in
      if nodes_count (nodes s) nid \<noteq> 0 then Inl (NodeAddedTwice nid)
      else
        let state = length (heap s);
            obj = \<lparr>node_id = nid,
                   address = \<lparr>raylet_id = info_node_id node_info,
                              ip_address = node_manager_address node_info,
                              port = node_manager_port node_info\<rparr>,
                   last_pull_time = - 1,
                   next_pull_time = now\<rparr>
        in Inr (s\<lparr>heap := heap s @ [obj],
                  nodes := nodes_emplace (nodes s) nid state,
                  to_pull_queue := state # to_pull_queue s,
                  polling_service := polling_service s @ [PostedTryPullResourceReport]\<rparr>))"

definition HandleNodeRemoved :: "poller \<Rightarrow> GcsNodeInfo \<Rightarrow> poller" where
  "HandleNodeRemoved s node_info =
     s\<lparr>nodes := nodes_erase (nodes s) (FromBinary (info_node_id node_info))\<rparr>"

subsection \<open>Dispatch and completion\<close>

text \<open>
  \<^verbatim>\<open>PullResourceReport\<close> increments the counter and hands a new callback, which holds
  a copy of \<^verbatim>\<open>state\<close>, to the raylet client.
\<close>

definition PullResourceReport :: "poller \<Rightarrow> ptr \<Rightarrow> poller" where
  "PullResourceReport s state =
     s\<lparr>inflight_pulls := inflight_pulls s + 1,
       raylet_requests := raylet_requests s @ [length (requested s)],
       requested := requested s @ [state]\<rparr>"

text \<open>
  The body of the callback, run when the request completes with \<^verbatim>\<open>status\<close> (\<open>ok\<close> is
  \<^verbatim>\<open>status.ok()\<close>) and \<^verbatim>\<open>reply\<close>. The posted lambda refers to the callback itself. The
  other branch only writes a log line.
\<close>

definition RequestResourceReport_callback ::
    "poller \<Rightarrow> callback \<Rightarrow> bool \<Rightarrow> ResourcesData \<Rightarrow> poller" where
  "RequestResourceReport_callback s cb ok resources =
     (if ok then
        s\<lparr>gcs_resource_manager := gcs_resource_manager s @ [resources],
          polling_service := polling_service s @ [PostedNodeResourceReportReceived cb]\<rparr>
      else s)"

text \<open>
  \<^verbatim>\<open>NodeResourceReportReceived\<close>, on a \<^verbatim>\<open>state\<close> that can be read. The sum of the clock
  reading and \<^verbatim>\<open>poll_period_ms_\<close> is the sum of two words; no theorem below depends on
  a sum that leaves the range of an \<^verbatim>\<open>int64_t\<close>.
\<close>

definition NodeResourceReportReceived :: "poller \<Rightarrow> ptr \<Rightarrow> 64 word \<Rightarrow> poller" where
  "NodeResourceReportReceived s state now =
     (let s1 = s\<lparr>inflight_pulls := inflight_pulls s - 1\<rparr> in
      if nodes_count (nodes s1) (node_id (heap s1 ! state)) = 0 then s1
      else
        s1\<lparr>heap := (heap s1)[state := (heap s1 ! state)\<lparr>next_pull_time := now + poll_period_ms s1\<rparr>],
           to_pull_queue := to_pull_queue s1 @ [state]\<rparr>)"

subsection \<open>Which objects can still be read\<close>

text \<open>
  The \<^verbatim>\<open>shared_ptr\<close> copies to an object are the registry entry that maps to it, its
  entries in the queue, and the copies captured by the callbacks that exist: those not
  yet invoked and those invoked and not yet destroyed. An object is alive while there
  is at least one copy.
\<close>

definition callback_state :: "poller \<Rightarrow> callback \<Rightarrow> ptr" where
  "callback_state s cb = requested s ! cb"

definition alive :: "poller \<Rightarrow> ptr \<Rightarrow> bool" where
  "alive s p \<longleftrightarrow>
     p \<in> snd ` set (nodes s) \<or> p \<in> set (to_pull_queue s) \<or>
     p \<in> callback_state s ` set (raylet_requests s @ completed_callbacks s)"

subsection \<open>The scheduler loop\<close>

text \<open>
  One call of the function is one test of the loop condition followed by one run of
  the body. \<^verbatim>\<open>cur_time > to_pull->next_pull_time\<close> compares two \<^verbatim>\<open>int64_t\<close>, hence
  the signed order \<open><s\<close>. The source binds \<^verbatim>\<open>to_pull\<close> as a reference to the front
  element and goes on using it after \<^verbatim>\<open>pop_front\<close>, which destroys that element and
  with it one copy of the \<^verbatim>\<open>shared_ptr\<close>. The reference then designates the slot of
  the destroyed element, and a read of that slot is taken to give the address it held.
  When the queue held the last copy the object is freed, and \<^verbatim>\<open>to_pull->node_id\<close> in
  the next line reads freed memory.
\<close>

function TryPullResourceReport_loop :: "poller \<Rightarrow> 64 word \<Rightarrow> error + poller" where
  "TryPullResourceReport_loop s cur_time =
     (if inflight_pulls s < max_concurrent_pulls s \<and> to_pull_queue s \<noteq> [] then
        let to_pull = hd (to_pull_queue s) in
        if next_pull_time (heap s ! to_pull) <s cur_time then Inr s
        else
          let s1 = s\<lparr>to_pull_queue := tl (to_pull_queue s)\<rparr> in
          if alive s1 to_pull then
            if nodes_count (nodes s1) (node_id (heap s1 ! to_pull)) = 0
            then TryPullResourceReport_loop s1 cur_time
            else TryPullResourceReport_loop (PullResourceReport s1 to_pull) cur_time
          else Inl UseAfterFree
      else Inr s)"
  by pat_completeness auto
termination
  by (relation "measure (\<lambda>(s, cur_time). length (to_pull_queue s))")
     (auto simp: PullResourceReport_def)

definition TryPullResourceReport :: "poller \<Rightarrow> 64 word \<Rightarrow> error + poller" where
  "TryPullResourceReport s cur_time = TryPullResourceReport_loop s cur_time"

definition Tick :: "poller \<Rightarrow> 64 word \<Rightarrow> error + poller" where
  "Tick s now = TryPullResourceReport s now"

subsection \<open>The step function of the whole poller\<close>

text \<open>
  What can happen to a poller: a caller starts or stops it, the membership source adds
  or removes a node, the timer fires, a request to a raylet completes and the RPC client
  invokes its callback, the RPC client destroys a callback it has invoked, or the polling
  thread runs the oldest posted handler. The timer and the posted handlers run on the
  polling thread, so they do something only while that thread runs the service. The
  callback runs on another thread than the handler it posts, so the client may destroy
  the callback before or after that handler runs.
\<close>

datatype event =
    CallStart
  | CallStop
  | NodeAdded GcsNodeInfo "64 word"
  | NodeRemoved GcsNodeInfo
  | TimerFires "64 word"
  | RpcCompletes nat bool ResourcesData
  | CallbackDestroyed nat
  | ServiceRuns "64 word"

definition service_running :: "poller \<Rightarrow> bool" where
  "service_running s \<longleftrightarrow> polling_thread s = Some True \<and> \<not> polling_service_stopped s"

text \<open>
  Running a posted handler. The lambda posted by a callback passes the member
  \<^verbatim>\<open>state\<close> of that callback, by reference, to \<^verbatim>\<open>NodeResourceReportReceived\<close>, which
  reads through it (\<^verbatim>\<open>state->node_id\<close>): when the callback has been destroyed this is a
  read of freed memory.
\<close>

fun run_handler :: "poller \<Rightarrow> handler \<Rightarrow> 64 word \<Rightarrow> error + poller" where
  "run_handler s PostedTryPullResourceReport now = TryPullResourceReport s now"
| "run_handler s (PostedNodeResourceReportReceived cb) now =
     (if cb \<in> set (completed_callbacks s)
      then Inr (NodeResourceReportReceived s (callback_state s cb) now)
      else Inl UseAfterFree)"

fun step :: "poller \<Rightarrow> event \<Rightarrow> error + poller" where
  "step s CallStart = Start s"
| "step s CallStop = Stop s"
| "step s (NodeAdded node_info now) = HandleNodeAdded s node_info now"
| "step s (NodeRemoved node_info) = Inr (HandleNodeRemoved s node_info)"
| "step s (TimerFires now) =
     (if service_running s \<and> ticker_started s then Tick s now else Inr s)"
| "step s (RpcCompletes i ok resources) =
     Inr (if i < length (raylet_requests s) then
            RequestResourceReport_callback
              (s\<lparr>raylet_requests := take i (raylet_requests s) @ drop (Suc i) (raylet_requests s),
                 completed_callbacks := completed_callbacks s @ [raylet_requests s ! i]\<rparr>)
              (raylet_requests s ! i) ok resources
          else s)"
| "step s (CallbackDestroyed j) =
     Inr (if j < length (completed_callbacks s) then
            s\<lparr>completed_callbacks :=
                take j (completed_callbacks s) @ drop (Suc j) (completed_callbacks s)\<rparr>
          else s)"
| "step s (ServiceRuns now) =
     (if service_running s then
        (case polling_service s of
           [] \<Rightarrow> Inr s
         | h # hs \<Rightarrow> run_handler (s\<lparr>polling_service := hs\<rparr>) h now)
      else Inr s)"

fun run :: "poller \<Rightarrow> event list \<Rightarrow> error + poller" where
  "run s [] = Inr s"
| "run s (e # es) = (case step s e of Inl err \<Rightarrow> Inl err | Inr s' \<Rightarrow> run s' es)"

subsection \<open>Pulls that are under way\<close>

text \<open>
  A pull is under way from the call of \<^verbatim>\<open>PullResourceReport\<close> until its completion
  has been handled: first its callback waits at the raylet client, then, after a reply
  with an ok status, the posted \<^verbatim>\<open>NodeResourceReportReceived\<close> waits at the service.
\<close>

fun handler_callbacks :: "handler \<Rightarrow> callback list" where
  "handler_callbacks PostedTryPullResourceReport = []"
| "handler_callbacks (PostedNodeResourceReportReceived cb) = [cb]"

definition under_way :: "poller \<Rightarrow> callback list" where
  "under_way s = raylet_requests s @ concat (map handler_callbacks (polling_service s))"

definition outstanding :: "poller \<Rightarrow> ptr list" where
  "outstanding s = map (callback_state s) (under_way s)"

text \<open>The two parts of \<open>outstanding\<close>: at the raylet client, and at the service.\<close>

definition waiting :: "poller \<Rightarrow> ptr list" where
  "waiting s = map (callback_state s) (raylet_requests s)"

definition completing :: "poller \<Rightarrow> ptr list" where
  "completing s =
     map (callback_state s) (concat (map handler_callbacks (polling_service s)))"

text \<open>The pulls under way for one node id, and all requests ever sent for it.\<close>

definition outstanding_for :: "poller \<Rightarrow> NodeID \<Rightarrow> ptr list" where
  "outstanding_for s k = filter (\<lambda>p. node_id (heap s ! p) = k) (outstanding s)"


subsection \<open>Invariants\<close>

definition counter_inv :: "poller \<Rightarrow> bool" where
  "counter_inv s \<longleftrightarrow>
     length (outstanding s) \<le> unat (inflight_pulls s) \<and>
     inflight_pulls s \<le> max_concurrent_pulls s"

definition ptrs_inv :: "poller \<Rightarrow> bool" where
  "ptrs_inv s \<longleftrightarrow>
     distinct (to_pull_queue s @ outstanding s) \<and>
     (\<forall>p \<in> set (to_pull_queue s @ outstanding s @ requested s). p < length (heap s)) \<and>
     (\<forall>cb \<in> set (under_way s @ completed_callbacks s). cb < length (requested s))"

definition registry_inv :: "poller \<Rightarrow> bool" where
  "registry_inv s \<longleftrightarrow> distinct (map fst (nodes s))"

text \<open>
  The node ids of the state objects that are queued or have a pull under way, and the
  runs in which no id is added while an object with that id is still queued or has a
  pull under way.
\<close>

definition live_ids :: "poller \<Rightarrow> NodeID list" where
  "live_ids s = map (\<lambda>p. node_id (heap s ! p)) (to_pull_queue s @ outstanding s)"

fun adds_fresh :: "poller \<Rightarrow> event list \<Rightarrow> bool" where
  "adds_fresh s [] = True"
| "adds_fresh s (e # es) =
     ((case e of
         NodeAdded node_info now \<Rightarrow> FromBinary (info_node_id node_info) \<notin> set (live_ids s)
       | _ \<Rightarrow> True) \<and>
      (case step s e of Inl err \<Rightarrow> True | Inr s' \<Rightarrow> adds_fresh s' es))"

text \<open>
  A state object that is out of every place from which it could come back: it is
  allocated, it is not in the queue and no pull for it is under way.
\<close>

definition gone :: "ptr \<Rightarrow> poller \<Rightarrow> bool" where
  "gone p s \<longleftrightarrow>
     p < length (heap s) \<and> p \<notin> set (to_pull_queue s) \<and> p \<notin> set (outstanding s)"

subsection \<open>Sample inputs\<close>

definition node_A :: GcsNodeInfo where
  "node_A = \<lparr>info_node_id = ''A'', node_manager_address = ''10.0.0.1'',
             node_manager_port = 7000\<rparr>"

definition node_B :: GcsNodeInfo where
  "node_B = \<lparr>info_node_id = ''B'', node_manager_address = ''10.0.0.2'',
             node_manager_port = 7000\<rparr>"

subsection \<open>Sample states\<close>

text \<open>
  States reached by short runs, with at most two pulls at once and a poll period of
  1000 ms. Each is the right projection of a run that the theorems using it show to
  end without an error.
\<close>

definition queued_A :: poller where
  "queued_A = projr (run (GcsResourceReportPoller 2 1000) [CallStart, NodeAdded node_A 100])"

definition early_pull_A :: poller where
  "early_pull_A = projr (TryPullResourceReport queued_A 50)"

definition dispatched_A :: poller where
  "dispatched_A =
     projr (run (GcsResourceReportPoller 1 1000) [CallStart, NodeAdded node_A 10, TimerFires 10])"

definition failed_A :: poller where
  "failed_A = projr (step dispatched_A (RpcCompletes 0 False []))"

definition completing_A :: poller where
  "completing_A =
     projr (run (GcsResourceReportPoller 2 1000)
       [CallStart, NodeAdded node_A 10, TimerFires 10, RpcCompletes 0 True ''r'', ServiceRuns 11])"

definition pulled_A :: poller where
  "pulled_A = projr (step completing_A (ServiceRuns 5000000000))"

definition repulled_A :: poller where
  "repulled_A = projr (Tick pulled_A 5000000500)"

definition readded_A :: poller where
  "readded_A =
     projr (run (GcsResourceReportPoller 2 1000)
       [CallStart, NodeAdded node_A 10, TimerFires 10, NodeRemoved node_A,
        NodeAdded node_A 20, TimerFires 20])"

definition two_dispatched :: poller where
  "two_dispatched =
     projr (run (GcsResourceReportPoller 2 1000)
       [CallStart, NodeAdded node_A 10, NodeAdded node_B 10, TimerFires 10])"


definition removed_in_flight :: poller where
  "removed_in_flight =
     projr (run (GcsResourceReportPoller 2 1000)
       [CallStart, NodeAdded node_A 10, TimerFires 10, NodeRemoved node_A])"

definition removed_completing :: poller where
  "removed_completing =
     projr (run removed_in_flight [RpcCompletes 0 True ''r'', ServiceRuns 11])"

definition starved_B :: poller where
  "starved_B =
     projr (run failed_A [ServiceRuns 11, NodeAdded node_B 12, ServiceRuns 12, TimerFires 12])"

definition removed_discarded :: poller where
  "removed_discarded = projr (step removed_completing (ServiceRuns 12))"

definition readded_completing :: poller where
  "readded_completing = projr (step removed_completing (NodeAdded node_A 12))"

definition requeued_old_A :: poller where
  "requeued_old_A = projr (step readded_completing (ServiceRuns 12))"




definition readded_idle :: poller where
  "readded_idle =
     projr (run (GcsResourceReportPoller 2 1000)
       [NodeAdded node_A 10, NodeRemoved node_A, NodeAdded node_A 20])"

definition never_started :: poller where
  "never_started =
     projr (run (GcsResourceReportPoller 2 1000) [NodeAdded node_A 10, NodeRemoved node_A])"

definition started :: poller where
  "started = projr (Start (GcsResourceReportPoller 2 1000))"

definition readd_after_completion :: "event list" where
  "readd_after_completion =
     [CallStart, NodeAdded node_A 10, TimerFires 10, NodeRemoved node_A,
      RpcCompletes 0 True ''r'', ServiceRuns 11, ServiceRuns 12,
      NodeAdded node_A 20, NodeAdded node_B 20, TimerFires 20]"

definition readded_later :: poller where
  "readded_later = projr (run (GcsResourceReportPoller 2 1000) readd_after_completion)"

section \<open>Proofs\<close>

subsection \<open>Rules for the loop, for one step and for runs\<close>

declare TryPullResourceReport_loop.simps [simp del]

text \<open>
  The rule of the loop: a property that holds on entry, that a discarded entry keeps
  and that a dispatch keeps, holds on exit when the loop ends without an error.
\<close>

lemma loop_invariant:
  assumes "P s" and "TryPullResourceReport_loop s t = Inr s'"
    and "\<And>s p q. P s \<Longrightarrow> inflight_pulls s < max_concurrent_pulls s \<Longrightarrow> to_pull_queue s = p # q \<Longrightarrow>
           \<not> next_pull_time (heap s ! p) <s t \<Longrightarrow> alive (s\<lparr>to_pull_queue := q\<rparr>) p \<Longrightarrow>
           nodes_count (nodes s) (node_id (heap s ! p)) = 0 \<Longrightarrow>
           P (s\<lparr>to_pull_queue := q\<rparr>)"
    and "\<And>s p q. P s \<Longrightarrow> inflight_pulls s < max_concurrent_pulls s \<Longrightarrow> to_pull_queue s = p # q \<Longrightarrow>
           \<not> next_pull_time (heap s ! p) <s t \<Longrightarrow> alive (s\<lparr>to_pull_queue := q\<rparr>) p \<Longrightarrow>
           nodes_count (nodes s) (node_id (heap s ! p)) \<noteq> 0 \<Longrightarrow>
           P (PullResourceReport (s\<lparr>to_pull_queue := q\<rparr>) p)"
  shows "P s'"
proof -
  have "P s \<Longrightarrow> u = t \<Longrightarrow> TryPullResourceReport_loop s u = Inr s' \<Longrightarrow> P s'" for u
  proof (induction s u rule: TryPullResourceReport_loop.induct)
    case (1 s u)
    note u = \<open>u = t\<close>
    note pop = assms(3)[folded u] and pull = assms(4)[folded u]
    let ?p = "hd (to_pull_queue s)"
    let ?s1 = "s\<lparr>to_pull_queue := tl (to_pull_queue s)\<rparr>"
    note res = \<open>TryPullResourceReport_loop s u = Inr s'\<close>
    show ?case
    proof (cases "inflight_pulls s < max_concurrent_pulls s \<and> to_pull_queue s \<noteq> []")
      case False
      then have "TryPullResourceReport_loop s u = Inr s"
        by (subst TryPullResourceReport_loop.simps) auto
      then show ?thesis using res "1.prems"(1) by simp
    next
      case go: True
      then have cap: "inflight_pulls s < max_concurrent_pulls s"
        and pq: "to_pull_queue s = ?p # tl (to_pull_queue s)" by simp_all
      show ?thesis
      proof (cases "next_pull_time (heap s ! ?p) <s u")
        case True
        then have "TryPullResourceReport_loop s u = Inr s"
          by (subst TryPullResourceReport_loop.simps) (simp add: Let_def)
        then show ?thesis using res "1.prems"(1) by simp
      next
        case due: False
        show ?thesis
        proof (cases "alive ?s1 ?p")
          case False
          then have "TryPullResourceReport_loop s u = Inl UseAfterFree"
            using go due by (subst TryPullResourceReport_loop.simps) (simp add: Let_def)
          then show ?thesis using res by simp
        next
          case live: True
          show ?thesis
          proof (cases "nodes_count (nodes ?s1) (node_id (heap ?s1 ! ?p)) = 0")
            case True
            then have reg: "nodes_count (nodes s) (node_id (heap s ! ?p)) = 0" by simp
            have P1: "P ?s1" by (rule pop[OF "1.prems"(1) cap pq due live reg])
            have "TryPullResourceReport_loop s u = TryPullResourceReport_loop ?s1 u"
              using go due live reg by (subst TryPullResourceReport_loop.simps) (simp add: Let_def)
            then have "TryPullResourceReport_loop ?s1 u = Inr s'" using res by simp
            then show ?thesis by (rule "1.IH"(1)[OF go refl due refl live True P1 u])
          next
            case False
            then have reg: "nodes_count (nodes s) (node_id (heap s ! ?p)) \<noteq> 0" by simp
            have P1: "P (PullResourceReport ?s1 ?p)"
              by (rule pull[OF "1.prems"(1) cap pq due live reg])
            have "TryPullResourceReport_loop s u =
                  TryPullResourceReport_loop (PullResourceReport ?s1 ?p) u"
              using go due live reg by (subst TryPullResourceReport_loop.simps) (simp add: Let_def)
            then have "TryPullResourceReport_loop (PullResourceReport ?s1 ?p) u = Inr s'"
              using res by simp
            then show ?thesis by (rule "1.IH"(2)[OF go refl due refl live False P1 u])
          qed
        qed
      qed
    qed
  qed
  then show ?thesis using assms(1,2) by simp
qed

lemma run_invariant:
  assumes "\<And>s e s'. P s \<Longrightarrow> step s e = Inr s' \<Longrightarrow> P s'"
    and "P s" and "run s evs = Inr s'"
  shows "P s'"
  using assms(2,3)
proof (induction evs arbitrary: s)
  case Nil
  then show ?case by simp
next
  case (Cons e evs)
  then obtain s1 where s1: "step s e = Inr s1" and rest: "run s1 evs = Inr s'"
    by (auto split: sum.splits)
  from assms(1)[OF Cons.prems(1) s1] have "P s1" .
  then show ?case using Cons.IH rest by blast
qed

text \<open>
  The rule of one step: a property kept by each member function is kept by every
  event. The rule for \<^verbatim>\<open>HandleNodeAdded\<close> may use which event it was.
\<close>

lemma step_preserves_event:
  assumes "P s" and "step s e = Inr s'"
    and start: "\<And>s s'. P s \<Longrightarrow> Start s = Inr s' \<Longrightarrow> P s'"
    and stop: "\<And>s s'. P s \<Longrightarrow> Stop s = Inr s' \<Longrightarrow> P s'"
    and added: "\<And>s node_info now s'. e = NodeAdded node_info now \<Longrightarrow> P s \<Longrightarrow>
        HandleNodeAdded s node_info now = Inr s' \<Longrightarrow> P s'"
    and removed: "\<And>s node_info. P s \<Longrightarrow> P (HandleNodeRemoved s node_info)"
    and loop: "\<And>s t s'. P s \<Longrightarrow> TryPullResourceReport_loop s t = Inr s' \<Longrightarrow> P s'"
    and callback: "\<And>s i ok r. P s \<Longrightarrow> i < length (raylet_requests s) \<Longrightarrow>
        P (RequestResourceReport_callback
            (s\<lparr>raylet_requests := take i (raylet_requests s) @ drop (Suc i) (raylet_requests s),
               completed_callbacks := completed_callbacks s @ [raylet_requests s ! i]\<rparr>)
            (raylet_requests s ! i) ok r)"
    and destroyed: "\<And>s j. P s \<Longrightarrow> j < length (completed_callbacks s) \<Longrightarrow>
        P (s\<lparr>completed_callbacks :=
               take j (completed_callbacks s) @ drop (Suc j) (completed_callbacks s)\<rparr>)"
    and taken: "\<And>s hs. P s \<Longrightarrow> polling_service s = PostedTryPullResourceReport # hs \<Longrightarrow>
        P (s\<lparr>polling_service := hs\<rparr>)"
    and received: "\<And>s cb hs now. P s \<Longrightarrow>
        polling_service s = PostedNodeResourceReportReceived cb # hs \<Longrightarrow>
        cb \<in> set (completed_callbacks s) \<Longrightarrow>
        P (NodeResourceReportReceived (s\<lparr>polling_service := hs\<rparr>) (callback_state s cb) now)"
  shows "P s'"
proof (cases e)
  case CallStart
  then show ?thesis using assms(1,2) start by simp
next
  case CallStop
  then show ?thesis using assms(1,2) stop by simp
next
  case (NodeAdded node_info now)
  then show ?thesis using assms(1,2) added by simp
next
  case (NodeRemoved node_info)
  then show ?thesis using assms(1,2) removed by auto
next
  case (TimerFires now)
  then show ?thesis using assms(1,2) loop
    by (auto simp: Tick_def TryPullResourceReport_def split: if_splits)
next
  case (RpcCompletes i ok r)
  then show ?thesis using assms(1,2) callback by (auto split: if_splits)
next
  case (CallbackDestroyed j)
  then show ?thesis using assms(1,2) destroyed by (auto split: if_splits)
next
  case (ServiceRuns now)
  show ?thesis
  proof (cases "service_running s")
    case False
    then show ?thesis using assms(1,2) ServiceRuns by simp
  next
    case True
    show ?thesis
    proof (cases "polling_service s")
      case Nil
      then show ?thesis using assms(1,2) ServiceRuns True by simp
    next
      case (Cons h hs)
      show ?thesis
      proof (cases h)
        case PostedTryPullResourceReport
        then have "P (s\<lparr>polling_service := hs\<rparr>)" using taken assms(1) Cons by simp
        moreover have "TryPullResourceReport_loop (s\<lparr>polling_service := hs\<rparr>) now = Inr s'"
          using assms(2) ServiceRuns True Cons PostedTryPullResourceReport
          by (simp add: TryPullResourceReport_def)
        ultimately show ?thesis by (rule loop)
      next
        case (PostedNodeResourceReportReceived cb)
        have st: "run_handler (s\<lparr>polling_service := hs\<rparr>) h now = Inr s'"
          using assms(2) ServiceRuns True Cons by simp
        then have live: "cb \<in> set (completed_callbacks s)"
          using PostedNodeResourceReportReceived by (auto split: if_splits)
        then have "s' = NodeResourceReportReceived (s\<lparr>polling_service := hs\<rparr>)
                          (callback_state s cb) now"
          using st PostedNodeResourceReportReceived by (simp add: callback_state_def)
        moreover have "P (NodeResourceReportReceived (s\<lparr>polling_service := hs\<rparr>)
                          (callback_state s cb) now)"
          using received assms(1) Cons PostedNodeResourceReportReceived live by simp
        ultimately show ?thesis by simp
      qed
    qed
  qed
qed

lemma step_preserves:
  assumes "P s" and "step s e = Inr s'"
    and "\<And>s s'. P s \<Longrightarrow> Start s = Inr s' \<Longrightarrow> P s'"
    and "\<And>s s'. P s \<Longrightarrow> Stop s = Inr s' \<Longrightarrow> P s'"
    and "\<And>s node_info now s'. P s \<Longrightarrow> HandleNodeAdded s node_info now = Inr s' \<Longrightarrow> P s'"
    and "\<And>s node_info. P s \<Longrightarrow> P (HandleNodeRemoved s node_info)"
    and "\<And>s t s'. P s \<Longrightarrow> TryPullResourceReport_loop s t = Inr s' \<Longrightarrow> P s'"
    and "\<And>s i ok r. P s \<Longrightarrow> i < length (raylet_requests s) \<Longrightarrow>
        P (RequestResourceReport_callback
            (s\<lparr>raylet_requests := take i (raylet_requests s) @ drop (Suc i) (raylet_requests s),
               completed_callbacks := completed_callbacks s @ [raylet_requests s ! i]\<rparr>)
            (raylet_requests s ! i) ok r)"
    and "\<And>s j. P s \<Longrightarrow> j < length (completed_callbacks s) \<Longrightarrow>
        P (s\<lparr>completed_callbacks :=
               take j (completed_callbacks s) @ drop (Suc j) (completed_callbacks s)\<rparr>)"
    and "\<And>s hs. P s \<Longrightarrow> polling_service s = PostedTryPullResourceReport # hs \<Longrightarrow>
        P (s\<lparr>polling_service := hs\<rparr>)"
    and "\<And>s cb hs now. P s \<Longrightarrow>
        polling_service s = PostedNodeResourceReportReceived cb # hs \<Longrightarrow>
        cb \<in> set (completed_callbacks s) \<Longrightarrow>
        P (NodeResourceReportReceived (s\<lparr>polling_service := hs\<rparr>) (callback_state s cb) now)"
  shows "P s'"
  by (rule step_preserves_event[of P, OF assms(1,2)])
     (fact assms | erule (1) assms | erule (2) assms)+

lemma run_handler_cases:
  "run_handler s h now =
     (case h of PostedTryPullResourceReport \<Rightarrow> TryPullResourceReport s now
      | PostedNodeResourceReportReceived cb \<Rightarrow>
          if cb \<in> set (completed_callbacks s)
          then Inr (NodeResourceReportReceived s (callback_state s cb) now)
          else Inl UseAfterFree)"
  by (cases h) simp_all

lemma loop_frame:
  assumes "TryPullResourceReport_loop s t = Inr s'"
  shows "nodes s' = nodes s \<and> heap s' = heap s \<and>
   polling_service s' = polling_service s \<and> polling_thread s' = polling_thread s \<and>
   polling_service_stopped s' = polling_service_stopped s \<and>
   ticker_started s' = ticker_started s \<and> poll_period_ms s' = poll_period_ms s \<and>
   gcs_resource_manager s' = gcs_resource_manager s \<and>
   completed_callbacks s' = completed_callbacks s \<and>
   max_concurrent_pulls s' = max_concurrent_pulls s"
  by (rule loop_invariant[where P = "\<lambda>s'. nodes s' = nodes s \<and> heap s' = heap s \<and>
        polling_service s' = polling_service s \<and> polling_thread s' = polling_thread s \<and>
        polling_service_stopped s' = polling_service_stopped s \<and>
        ticker_started s' = ticker_started s \<and> poll_period_ms s' = poll_period_ms s \<and>
        gcs_resource_manager s' = gcs_resource_manager s \<and>
        completed_callbacks s' = completed_callbacks s \<and>
        max_concurrent_pulls s' = max_concurrent_pulls s", OF _ assms])
     (simp_all add: PullResourceReport_def)

lemma remove_nth_set: "set (take i xs @ drop (Suc i) xs) \<subseteq> set xs"
  by (auto dest: in_set_takeD in_set_dropD)

lemma remove_nth_distinct:
  assumes "i < length xs" and "distinct xs"
  shows "distinct (take i xs @ drop (Suc i) xs) \<and> xs ! i \<notin> set (take i xs @ drop (Suc i) xs)"
proof -
  have "distinct (take i xs @ xs ! i # drop (Suc i) xs)"
    using assms id_take_nth_drop[of i xs] by simp
  then show ?thesis by auto
qed

subsection \<open>The counter and the pulls under way\<close>

lemma unat_inc_below: "(x::64 word) < y \<Longrightarrow> unat (x + 1) = Suc (unat x)"
proof -
  assume "x < y"
  then have "unat x < unat y" by (simp add: word_less_nat_alt)
  moreover have "unat y < 2 ^ 64" using unsigned_less[of y, where ?'a = nat] by simp
  ultimately have "unat x + unat (1::64 word) < 2 ^ LENGTH(64)" by simp
  then have "unat (x + 1) = unat x + unat (1::64 word)" by (simp only: unat_add_lem)
  then show ?thesis by simp
qed

lemma under_way_simps [simp]:
  "under_way (s\<lparr>to_pull_queue := q\<rparr>) = under_way s"
  "under_way (s\<lparr>inflight_pulls := n\<rparr>) = under_way s"
  "under_way (s\<lparr>nodes := ns\<rparr>) = under_way s"
  "under_way (s\<lparr>heap := h\<rparr>) = under_way s"
  "under_way (s\<lparr>polling_thread := th\<rparr>) = under_way s"
  "under_way (s\<lparr>polling_service_stopped := b\<rparr>) = under_way s"
  "under_way (s\<lparr>ticker_started := b\<rparr>) = under_way s"
  "under_way (s\<lparr>requested := r\<rparr>) = under_way s"
  "under_way (s\<lparr>completed_callbacks := cs\<rparr>) = under_way s"
  "under_way (s\<lparr>gcs_resource_manager := g\<rparr>) = under_way s"
  by (simp_all add: under_way_def)

lemma outstanding_simps [simp]:
  "outstanding (s\<lparr>to_pull_queue := q\<rparr>) = outstanding s"
  "outstanding (s\<lparr>inflight_pulls := n\<rparr>) = outstanding s"
  "outstanding (s\<lparr>nodes := ns\<rparr>) = outstanding s"
  "outstanding (s\<lparr>heap := h\<rparr>) = outstanding s"
  "outstanding (s\<lparr>polling_thread := th\<rparr>) = outstanding s"
  "outstanding (s\<lparr>polling_service_stopped := b\<rparr>) = outstanding s"
  "outstanding (s\<lparr>ticker_started := b\<rparr>) = outstanding s"
  "outstanding (s\<lparr>completed_callbacks := cs\<rparr>) = outstanding s"
  "outstanding (s\<lparr>gcs_resource_manager := g\<rparr>) = outstanding s"
  by (simp_all add: outstanding_def callback_state_def)

lemma length_outstanding: "length (outstanding s) = length (under_way s)"
  by (simp add: outstanding_def)

lemma counter_inv_PullResourceReport:
  "counter_inv s \<Longrightarrow> inflight_pulls s < max_concurrent_pulls s \<Longrightarrow>
   counter_inv (PullResourceReport (s\<lparr>to_pull_queue := q\<rparr>) p)"
  by (simp add: counter_inv_def length_outstanding PullResourceReport_def under_way_def
        unat_inc_below inc_le)

lemma counter_inv_loop:
  "counter_inv s \<Longrightarrow> TryPullResourceReport_loop s t = Inr s' \<Longrightarrow> counter_inv s'"
  by (erule loop_invariant, assumption)
     (simp_all add: counter_inv_PullResourceReport, simp add: counter_inv_def)

lemma counter_inv_received:
  assumes "counter_inv (s\<lparr>polling_service := PostedNodeResourceReportReceived cb # hs\<rparr>)"
  shows "counter_inv (NodeResourceReportReceived (s\<lparr>polling_service := hs\<rparr>) p now)"
proof -
  from assms have pos: "0 < unat (inflight_pulls s)" and le: "inflight_pulls s \<le> max_concurrent_pulls s"
    and len: "Suc (length (raylet_requests s) + length (concat (map handler_callbacks hs))) \<le> unat (inflight_pulls s)"
    by (simp_all add: counter_inv_def length_outstanding under_way_def)
  from pos have nz: "inflight_pulls s \<noteq> 0" by (auto simp: unat_eq_0)
  have dec: "unat (inflight_pulls s - 1) = unat (inflight_pulls s) - 1" by (rule unat_minus_one[OF nz])
  have "inflight_pulls s - 1 \<le> inflight_pulls s" using nz by (simp add: word_le_nat_alt dec)
  with le have "inflight_pulls s - 1 \<le> max_concurrent_pulls s" by simp
  then show ?thesis using len dec
    by (auto simp: counter_inv_def NodeResourceReportReceived_def Let_def length_outstanding
          under_way_def)
qed

lemma counter_inv_step: "counter_inv s \<Longrightarrow> step s e = Inr s' \<Longrightarrow> counter_inv s'"
proof (erule step_preserves, assumption)
  fix s s' assume "counter_inv s" "Start s = Inr s'"
  then show "counter_inv s'" by (auto simp: counter_inv_def Start_def split: if_splits)
next
  fix s s' assume "counter_inv s" "Stop s = Inr s'"
  then show "counter_inv s'"
    by (auto simp: counter_inv_def Stop_def Let_def split: if_splits option.splits)
next
  fix s node_info now s' assume "counter_inv s" "HandleNodeAdded s node_info now = Inr s'"
  then show "counter_inv s'"
    by (auto simp: counter_inv_def HandleNodeAdded_def Let_def length_outstanding under_way_def
          split: if_splits)
next
  fix s :: poller and node_info assume "counter_inv s"
  then show "counter_inv (HandleNodeRemoved s node_info)"
    by (simp add: counter_inv_def HandleNodeRemoved_def)
next
  fix s :: poller and i ok r assume "counter_inv s" "i < length (raylet_requests s)"
  then show "counter_inv (RequestResourceReport_callback
      (s\<lparr>raylet_requests := take i (raylet_requests s) @ drop (Suc i) (raylet_requests s),
         completed_callbacks := completed_callbacks s @ [raylet_requests s ! i]\<rparr>)
      (raylet_requests s ! i) ok r)"
    by (auto simp: counter_inv_def RequestResourceReport_callback_def length_outstanding
          under_way_def)
next
  fix s :: poller and j assume "counter_inv s"
  then show "counter_inv (s\<lparr>completed_callbacks :=
      take j (completed_callbacks s) @ drop (Suc j) (completed_callbacks s)\<rparr>)"
    by (simp add: counter_inv_def)
next
  fix s :: poller and hs assume "counter_inv s" "polling_service s = PostedTryPullResourceReport # hs"
  then show "counter_inv (s\<lparr>polling_service := hs\<rparr>)"
    by (simp add: counter_inv_def length_outstanding under_way_def)
next
  fix s :: poller and cb hs now
  assume "counter_inv s" "polling_service s = PostedNodeResourceReportReceived cb # hs"
  then have "counter_inv (s\<lparr>polling_service := PostedNodeResourceReportReceived cb # hs\<rparr>)"
    by (simp add: counter_inv_def length_outstanding under_way_def)
  then show "counter_inv (NodeResourceReportReceived (s\<lparr>polling_service := hs\<rparr>)
      (callback_state s cb) now)"
    by (rule counter_inv_received)
qed (rule counter_inv_loop)

lemma loop_no_capacity:
  "\<not> inflight_pulls s < max_concurrent_pulls s \<Longrightarrow> TryPullResourceReport_loop s t = Inr s"
  by (subst TryPullResourceReport_loop.simps) simp

lemma loop_inflight_mono:
  assumes "counter_inv s" and "TryPullResourceReport_loop s t = Inr s'"
  shows "unat (inflight_pulls s) \<le> unat (inflight_pulls s')"
proof -
  let ?P = "\<lambda>s'. counter_inv s' \<and> unat (inflight_pulls s) \<le> unat (inflight_pulls s')"
  have "?P s'"
  proof (rule loop_invariant[where P = ?P, OF _ assms(2)])
    show "?P s" using assms by simp
  next
    fix s' p q
    assume "?P s'"
    then show "?P (s'\<lparr>to_pull_queue := q\<rparr>)" by (simp add: counter_inv_def)
  next
    fix s' p q
    assume "?P s'" and "inflight_pulls s' < max_concurrent_pulls s'"
    then show "?P (PullResourceReport (s'\<lparr>to_pull_queue := q\<rparr>) p)"
      using counter_inv_PullResourceReport[of s' q p] unat_inc_below[of "inflight_pulls s'" "max_concurrent_pulls s'"]
      by (simp add: PullResourceReport_def)
  qed
  then show ?thesis by simp
qed

lemma step_max: "step s e = Inr s' \<Longrightarrow> max_concurrent_pulls s' = max_concurrent_pulls s"
proof (rule step_preserves[where P = "\<lambda>x. max_concurrent_pulls x = max_concurrent_pulls s" and s = s])
  fix x t x' assume "max_concurrent_pulls x = max_concurrent_pulls s" "TryPullResourceReport_loop x t = Inr x'"
  then show "max_concurrent_pulls x' = max_concurrent_pulls s" using loop_frame[of x t x'] by simp
qed (auto simp: Start_def Stop_def HandleNodeAdded_def HandleNodeRemoved_def
        RequestResourceReport_callback_def NodeResourceReportReceived_def Let_def
        split: if_splits option.splits)

lemma run_max: "run s evs = Inr s' \<Longrightarrow> max_concurrent_pulls s' = max_concurrent_pulls s"
  by (rule run_invariant[where P = "\<lambda>x. max_concurrent_pulls x = max_concurrent_pulls s" and s = s and evs = evs])
     (simp_all add: step_max)

lemma counter_inv_init: "counter_inv (GcsResourceReportPoller m period)"
  by (simp add: counter_inv_def GcsResourceReportPoller_def outstanding_def under_way_def)

lemma counter_inv_run: "run (GcsResourceReportPoller m period) evs = Inr s \<Longrightarrow> counter_inv s"
  by (rule run_invariant[where P = counter_inv, OF counter_inv_step counter_inv_init])

lemma step_inflight_up:
  assumes "counter_inv s" and "step s e = Inr s'"
    and "unat (inflight_pulls s) < unat (inflight_pulls s')"
  shows "inflight_pulls s < max_concurrent_pulls s"
proof (rule ccontr)
  assume full: "\<not> inflight_pulls s < max_concurrent_pulls s"
  then have loop: "TryPullResourceReport_loop (s\<lparr>polling_service := hs\<rparr>) t = Inr (s\<lparr>polling_service := hs\<rparr>)"
    and loop': "TryPullResourceReport_loop s t = Inr s" for hs t
    by (simp_all add: loop_no_capacity)
  have nz: "length (under_way s) \<le> unat (inflight_pulls s)"
    using assms(1) by (simp add: counter_inv_def length_outstanding)
  have dec: "polling_service s = PostedNodeResourceReportReceived cb # hs \<Longrightarrow> unat (inflight_pulls s - 1) \<le> unat (inflight_pulls s)" for cb hs
    using nz by (subst unat_minus_one) (auto simp: under_way_def unat_eq_0)
  show False using assms(2,3) loop loop' dec
    by (cases e)
       (auto simp: Start_def Stop_def HandleNodeAdded_def HandleNodeRemoved_def Tick_def
          TryPullResourceReport_def RequestResourceReport_callback_def
          NodeResourceReportReceived_def Let_def run_handler_cases
          split: if_splits option.splits list.splits handler.splits)
qed

lemma step_inflight_down:
  assumes "counter_inv s" and "step s e = Inr s'"
    and "unat (inflight_pulls s') < unat (inflight_pulls s)"
  shows "\<exists>now p hs. e = ServiceRuns now \<and> service_running s \<and>
           polling_service s = PostedNodeResourceReportReceived p # hs \<and>
           Suc (unat (inflight_pulls s')) = unat (inflight_pulls s)"
proof -
  have mono: "unat (inflight_pulls s) \<le> unat (inflight_pulls x)"
    if "TryPullResourceReport_loop s t = Inr x" for t x
    using assms(1) that by (rule loop_inflight_mono)
  have mono': "unat (inflight_pulls s) \<le> unat (inflight_pulls x)"
    if "polling_service s = PostedTryPullResourceReport # hs"
      "TryPullResourceReport_loop (s\<lparr>polling_service := hs\<rparr>) t = Inr x" for t hs x
    using loop_inflight_mono[of "s\<lparr>polling_service := hs\<rparr>" t x] assms(1) that
    by (simp add: counter_inv_def length_outstanding under_way_def)
  have nz: "length (under_way s) \<le> unat (inflight_pulls s)"
    using assms(1) by (simp add: counter_inv_def length_outstanding)
  have dec: "polling_service s = PostedNodeResourceReportReceived p # hs \<Longrightarrow> Suc (unat (inflight_pulls s - 1)) = unat (inflight_pulls s)" for p hs
    using nz by (subst unat_minus_one) (auto simp: under_way_def unat_eq_0)
  show ?thesis
  proof (cases e)
    case (TimerFires now)
    then show ?thesis using assms(2,3) mono[of now s']
      by (auto simp: Tick_def TryPullResourceReport_def split: if_splits)
  next
    case (ServiceRuns now)
    then show ?thesis using assms(2,3) mono'[where t = now and x = s'] dec
      by (auto simp: TryPullResourceReport_def NodeResourceReportReceived_def Let_def
            run_handler_cases split: if_splits list.splits handler.splits)
  qed (use assms(2,3) in \<open>auto simp: Start_def Stop_def HandleNodeAdded_def HandleNodeRemoved_def
          RequestResourceReport_callback_def Let_def split: if_splits option.splits\<close>)
qed

subsection \<open>The two parts of the pulls under way\<close>

lemma outstanding_parts: "outstanding s = waiting s @ completing s"
  by (simp add: outstanding_def under_way_def waiting_def completing_def)

lemma callbacks_valid_parts:
  "(\<forall>cb \<in> set (under_way s @ completed_callbacks s). cb < length (requested s)) \<longleftrightarrow>
   (\<forall>cb \<in> set (raylet_requests s). cb < length (requested s)) \<and>
   (\<forall>cb \<in> set (concat (map handler_callbacks (polling_service s))). cb < length (requested s)) \<and>
   (\<forall>cb \<in> set (completed_callbacks s). cb < length (requested s))"
  by (auto simp: under_way_def)

lemma parts_frame [simp]:
  "waiting (s\<lparr>to_pull_queue := q\<rparr>) = waiting s"
  "waiting (s\<lparr>inflight_pulls := n\<rparr>) = waiting s"
  "waiting (s\<lparr>nodes := ns\<rparr>) = waiting s"
  "waiting (s\<lparr>heap := h\<rparr>) = waiting s"
  "waiting (s\<lparr>polling_thread := th\<rparr>) = waiting s"
  "waiting (s\<lparr>polling_service := ps\<rparr>) = waiting s"
  "waiting (s\<lparr>polling_service_stopped := b\<rparr>) = waiting s"
  "waiting (s\<lparr>ticker_started := b\<rparr>) = waiting s"
  "waiting (s\<lparr>completed_callbacks := cs\<rparr>) = waiting s"
  "waiting (s\<lparr>gcs_resource_manager := g\<rparr>) = waiting s"
  "completing (s\<lparr>to_pull_queue := q\<rparr>) = completing s"
  "completing (s\<lparr>inflight_pulls := n\<rparr>) = completing s"
  "completing (s\<lparr>nodes := ns\<rparr>) = completing s"
  "completing (s\<lparr>heap := h\<rparr>) = completing s"
  "completing (s\<lparr>polling_thread := th\<rparr>) = completing s"
  "completing (s\<lparr>raylet_requests := rs\<rparr>) = completing s"
  "completing (s\<lparr>polling_service_stopped := b\<rparr>) = completing s"
  "completing (s\<lparr>ticker_started := b\<rparr>) = completing s"
  "completing (s\<lparr>completed_callbacks := cs\<rparr>) = completing s"
  "completing (s\<lparr>gcs_resource_manager := g\<rparr>) = completing s"
  by (simp_all add: waiting_def completing_def callback_state_def)

lemma map_nth_append_valid:
  "\<forall>c \<in> set cs. c < length xs \<Longrightarrow> map (\<lambda>c. (xs @ ys) ! c) cs = map (\<lambda>c. xs ! c) cs"
  by (induction cs) (simp_all add: nth_append)

lemma parts_pull:
  assumes "\<forall>cb \<in> set (under_way s). cb < length (requested s)"
  shows "waiting (PullResourceReport s p) = waiting s @ [p]"
    and "completing (PullResourceReport s p) = completing s"
proof -
  have v1: "\<forall>c \<in> set (raylet_requests s). c < length (requested s)"
    and v2: "\<forall>c \<in> set (concat (map handler_callbacks (polling_service s))). c < length (requested s)"
    using assms by (auto simp: under_way_def)
  show "waiting (PullResourceReport s p) = waiting s @ [p]"
    using map_nth_append_valid[OF v1, of "[p]"]
    by (simp add: waiting_def PullResourceReport_def callback_state_def)
  show "completing (PullResourceReport s p) = completing s"
    using map_nth_append_valid[OF v2, of "[p]"]
    by (simp add: completing_def PullResourceReport_def callback_state_def)
qed

lemma parts_callback:
  assumes "i < length (raylet_requests s)"
  shows "waiting (RequestResourceReport_callback
           (s\<lparr>raylet_requests := take i (raylet_requests s) @ drop (Suc i) (raylet_requests s),
              completed_callbacks := completed_callbacks s @ [raylet_requests s ! i]\<rparr>)
           (raylet_requests s ! i) ok r) = take i (waiting s) @ drop (Suc i) (waiting s)"
    and "completing (RequestResourceReport_callback
           (s\<lparr>raylet_requests := take i (raylet_requests s) @ drop (Suc i) (raylet_requests s),
              completed_callbacks := completed_callbacks s @ [raylet_requests s ! i]\<rparr>)
           (raylet_requests s ! i) ok r) =
         completing s @ (if ok then [waiting s ! i] else [])"
  using assms
  by (simp_all add: waiting_def completing_def RequestResourceReport_callback_def
        callback_state_def take_map drop_map)

lemma parts_taken:
  "polling_service s = PostedTryPullResourceReport # hs \<Longrightarrow>
   completing (s\<lparr>polling_service := hs\<rparr>) = completing s"
  by (simp add: completing_def callback_state_def)

lemma parts_received:
  assumes "polling_service s = PostedNodeResourceReportReceived cb # hs"
  shows "completing s = callback_state s cb # completing (s\<lparr>polling_service := hs\<rparr>)"
    and "waiting (NodeResourceReportReceived (s\<lparr>polling_service := hs\<rparr>) p now) = waiting s"
    and "completing (NodeResourceReportReceived (s\<lparr>polling_service := hs\<rparr>) p now) =
         completing (s\<lparr>polling_service := hs\<rparr>)"
  using assms
  by (simp_all add: waiting_def completing_def callback_state_def
        NodeResourceReportReceived_def Let_def)

lemma parts_added:
  assumes "HandleNodeAdded s node_info now = Inr s'"
  shows "waiting s' = waiting s" and "completing s' = completing s"
  using assms
  by (auto simp: HandleNodeAdded_def Let_def waiting_def completing_def callback_state_def
        split: if_splits)

subsection \<open>The state objects and the places that hold them\<close>

lemma ptrs_inv_parts:
  "ptrs_inv s \<longleftrightarrow>
     distinct (to_pull_queue s @ waiting s @ completing s) \<and>
     (\<forall>p \<in> set (to_pull_queue s @ waiting s @ completing s @ requested s). p < length (heap s)) \<and>
     (\<forall>cb \<in> set (under_way s @ completed_callbacks s). cb < length (requested s))"
  by (simp add: ptrs_inv_def outstanding_parts)

lemma ptrs_inv_pop: "ptrs_inv s \<Longrightarrow> to_pull_queue s = p # q \<Longrightarrow> ptrs_inv (s\<lparr>to_pull_queue := q\<rparr>)"
  by (simp add: ptrs_inv_parts)

lemma ptrs_inv_pull:
  assumes "ptrs_inv s" and "to_pull_queue s = p # q"
  shows "ptrs_inv (PullResourceReport (s\<lparr>to_pull_queue := q\<rparr>) p)"
proof -
  let ?s1 = "s\<lparr>to_pull_queue := q\<rparr>"
  let ?s' = "PullResourceReport ?s1 p"
  define W where "W = waiting s"
  define C where "C = completing s"
  have cv: "\<forall>cb \<in> set (under_way s @ completed_callbacks s). cb < length (requested s)"
    using assms(1) by (simp add: ptrs_inv_parts)
  then have cv1: "\<forall>cb \<in> set (under_way ?s1). cb < length (requested ?s1)" by simp
  have w: "waiting ?s' = W @ [p]" and c: "completing ?s' = C"
    using parts_pull[OF cv1, of p] by (simp_all add: W_def C_def)
  have d: "distinct (p # q @ W @ C)"
    and v: "\<forall>x \<in> set (p # q @ W @ C @ requested s). x < length (heap s)"
    using assms by (simp_all add: ptrs_inv_parts W_def C_def)
  have f: "to_pull_queue ?s' = q" "heap ?s' = heap s" "requested ?s' = requested s @ [p]"
    "completed_callbacks ?s' = completed_callbacks s"
    by (simp_all add: PullResourceReport_def)
  have uw: "set (under_way ?s') = insert (length (requested s)) (set (under_way s))"
    by (auto simp: PullResourceReport_def under_way_def)
  have "distinct (q @ (W @ [p]) @ C)" using d by auto
  moreover have "\<forall>x \<in> set (q @ (W @ [p]) @ C @ requested s @ [p]). x < length (heap s)"
    using v by auto
  moreover have "\<forall>cb \<in> set (under_way ?s' @ completed_callbacks s).
      cb < length (requested s @ [p])"
    using cv uw by (auto simp: less_Suc_eq)
  ultimately show ?thesis unfolding ptrs_inv_parts f w c by simp
qed

lemma ptrs_inv_loop: "ptrs_inv s \<Longrightarrow> TryPullResourceReport_loop s t = Inr s' \<Longrightarrow> ptrs_inv s'"
  by (erule loop_invariant, assumption) (simp_all add: ptrs_inv_pop ptrs_inv_pull)

lemma ptrs_inv_added:
  assumes "ptrs_inv s" and "HandleNodeAdded s node_info now = Inr s'"
  shows "ptrs_inv s'"
proof -
  from assms(2) obtain obj ns where s': "s' = s\<lparr>heap := heap s @ [obj], nodes := ns,
      to_pull_queue := length (heap s) # to_pull_queue s,
      polling_service := polling_service s @ [PostedTryPullResourceReport]\<rparr>"
    by (auto simp: HandleNodeAdded_def Let_def split: if_splits)
  define W where "W = waiting s"
  define C where "C = completing s"
  have w: "waiting s' = W" and c: "completing s' = C"
    using parts_added[OF assms(2)] by (simp_all add: W_def C_def)
  have d: "distinct (to_pull_queue s @ W @ C)"
    and v: "\<forall>x \<in> set (to_pull_queue s @ W @ C @ requested s). x < length (heap s)"
    and cv: "\<forall>cb \<in> set (under_way s @ completed_callbacks s). cb < length (requested s)"
    using assms(1) by (simp_all add: ptrs_inv_parts W_def C_def)
  from v have fresh: "length (heap s) \<notin> set (to_pull_queue s @ W @ C)" by auto
  have f: "to_pull_queue s' = length (heap s) # to_pull_queue s" "heap s' = heap s @ [obj]"
    "requested s' = requested s" "under_way s' = under_way s"
    "completed_callbacks s' = completed_callbacks s"
    by (simp_all add: s' under_way_def)
  have "distinct ((length (heap s) # to_pull_queue s) @ W @ C)" using d fresh by simp
  moreover have "\<forall>x \<in> set ((length (heap s) # to_pull_queue s) @ W @ C @ requested s).
      x < length (heap s @ [obj])"
    using v by (auto simp: less_Suc_eq)
  ultimately show ?thesis unfolding ptrs_inv_parts f w c using cv by simp
qed

lemma ptrs_inv_callback:
  assumes "ptrs_inv s" and "i < length (raylet_requests s)"
  shows "ptrs_inv (RequestResourceReport_callback
           (s\<lparr>raylet_requests := take i (raylet_requests s) @ drop (Suc i) (raylet_requests s),
              completed_callbacks := completed_callbacks s @ [raylet_requests s ! i]\<rparr>)
           (raylet_requests s ! i) ok r)"
proof -
  let ?rs = "raylet_requests s"
  let ?s' = "RequestResourceReport_callback
           (s\<lparr>raylet_requests := take i ?rs @ drop (Suc i) ?rs,
              completed_callbacks := completed_callbacks s @ [?rs ! i]\<rparr>) (?rs ! i) ok r"
  define W where "W = waiting s"
  define C where "C = completing s"
  define Q where "Q = to_pull_queue s"
  have i: "i < length W" using assms(2) by (simp add: W_def waiting_def)
  have w: "waiting ?s' = take i W @ drop (Suc i) W"
    and c: "completing ?s' = C @ (if ok then [W ! i] else [])"
    using parts_callback[OF assms(2), of ok r] by (simp_all add: W_def C_def)
  have d: "distinct (Q @ W @ C)"
    and v: "\<forall>x \<in> set (Q @ W @ C @ requested s). x < length (heap s)"
    and cv: "\<forall>cb \<in> set (under_way s @ completed_callbacks s). cb < length (requested s)"
    using assms(1) by (simp_all add: ptrs_inv_parts W_def C_def Q_def)
  have sub: "set (take i W @ drop (Suc i) W) \<subseteq> set W" by (rule remove_nth_set)
  have mem: "W ! i \<in> set W" using i by simp
  have d': "distinct (take i W @ drop (Suc i) W)" "W ! i \<notin> set (take i W @ drop (Suc i) W)"
    using remove_nth_distinct[OF i] d by simp_all
  have f: "to_pull_queue ?s' = Q" "heap ?s' = heap s" "requested ?s' = requested s"
    "completed_callbacks ?s' = completed_callbacks s @ [?rs ! i]"
    by (simp_all add: RequestResourceReport_callback_def Q_def)
  have uw: "set (under_way ?s') \<subseteq> set (under_way s)"
    using remove_nth_set[of i ?rs] assms(2)
    by (auto simp: RequestResourceReport_callback_def under_way_def)
  have rsi: "?rs ! i \<in> set (under_way s)" using assms(2) by (simp add: under_way_def)
  have "distinct (Q @ (take i W @ drop (Suc i) W) @ C @ (if ok then [W ! i] else []))"
    using d d' sub mem by (simp only: distinct_append set_append) (auto split: if_splits)
  moreover have "\<forall>x \<in> set (Q @ (take i W @ drop (Suc i) W) @ (C @ (if ok then [W ! i] else [])) @ requested s).
      x < length (heap s)"
    using v sub mem by (simp only: set_append) (auto split: if_splits)
  moreover have "\<forall>cb \<in> set (under_way ?s' @ completed_callbacks s @ [?rs ! i]). cb < length (requested s)"
    using cv uw rsi by auto
  ultimately show ?thesis unfolding ptrs_inv_parts f w c by simp
qed

lemma ptrs_inv_destroyed:
  assumes "ptrs_inv s"
  shows "ptrs_inv (s\<lparr>completed_callbacks :=
           take j (completed_callbacks s) @ drop (Suc j) (completed_callbacks s)\<rparr>)"
proof -
  let ?cs = "completed_callbacks s"
  have sub: "set (take j ?cs @ drop (Suc j) ?cs) \<subseteq> set ?cs" by (rule remove_nth_set)
  have cv: "\<forall>cb \<in> set (under_way s) \<union> set ?cs. cb < length (requested s)"
    using assms by (simp add: ptrs_inv_parts)
  then have "\<forall>cb \<in> set (under_way s) \<union> set (take j ?cs @ drop (Suc j) ?cs).
      cb < length (requested s)"
    using sub by blast
  then show ?thesis using assms by (simp add: ptrs_inv_parts)
qed

lemma ptrs_inv_received:
  assumes "ptrs_inv s" and "polling_service s = PostedNodeResourceReportReceived cb # hs"
  shows "ptrs_inv (NodeResourceReportReceived (s\<lparr>polling_service := hs\<rparr>) (callback_state s cb) now)"
proof -
  let ?p = "callback_state s cb"
  let ?s1 = "s\<lparr>polling_service := hs\<rparr>"
  let ?s' = "NodeResourceReportReceived ?s1 ?p now"
  define W where "W = waiting s"
  define C where "C = completing ?s1"
  define Q where "Q = to_pull_queue s"
  have cs: "completing s = ?p # C" and w: "waiting ?s' = W" and c: "completing ?s' = C"
    using parts_received[OF assms(2)] by (simp_all add: W_def C_def)
  have d: "distinct (Q @ W @ ?p # C)"
    and v: "\<forall>x \<in> set (Q @ W @ ?p # C @ requested s). x < length (heap s)"
    and cv: "\<forall>cb \<in> set (under_way s @ completed_callbacks s). cb < length (requested s)"
    using assms(1) cs by (simp_all add: ptrs_inv_parts W_def Q_def)
  have len: "length (heap ?s') = length (heap s)" and req: "requested ?s' = requested s"
    and cc: "completed_callbacks ?s' = completed_callbacks s"
    by (simp_all add: NodeResourceReportReceived_def Let_def)
  have uw: "set (under_way ?s') \<subseteq> set (under_way s)"
    using assms(2) by (auto simp: NodeResourceReportReceived_def Let_def under_way_def)
  have q: "to_pull_queue ?s' = Q \<or> to_pull_queue ?s' = Q @ [?p]"
    by (simp add: NodeResourceReportReceived_def Let_def Q_def)
  have "distinct (to_pull_queue ?s' @ W @ C)" using q d by auto
  moreover have "\<forall>x \<in> set (to_pull_queue ?s' @ W @ C @ requested s). x < length (heap s)"
    using q v by auto
  moreover have "\<forall>cb \<in> set (under_way ?s' @ completed_callbacks s). cb < length (requested s)"
    using cv uw by auto
  ultimately show ?thesis unfolding ptrs_inv_parts len req cc w c by simp
qed

lemma ptrs_inv_step: "ptrs_inv s \<Longrightarrow> step s e = Inr s' \<Longrightarrow> ptrs_inv s'"
proof (erule step_preserves, assumption)
  fix s s' assume "ptrs_inv s" "Start s = Inr s'"
  then show "ptrs_inv s'"
    by (cases "polling_thread s = Some True") (auto simp: ptrs_inv_parts Start_def)
next
  fix s s' assume a: "ptrs_inv s" "Stop s = Inr s'"
  then obtain j where "s' = s\<lparr>polling_service_stopped := True\<rparr> \<or>
      s' = s\<lparr>polling_service_stopped := True, polling_thread := Some j\<rparr>"
    by (auto simp: Stop_def Let_def split: if_splits option.splits)
  then show "ptrs_inv s'" using a(1) by (auto simp: ptrs_inv_parts)
next
  fix s :: poller and hs assume "ptrs_inv s" "polling_service s = PostedTryPullResourceReport # hs"
  then show "ptrs_inv (s\<lparr>polling_service := hs\<rparr>)"
    by (simp add: ptrs_inv_parts parts_taken under_way_def)
next
  fix s :: poller and node_info assume "ptrs_inv s"
  then show "ptrs_inv (HandleNodeRemoved s node_info)"
    by (simp add: ptrs_inv_parts HandleNodeRemoved_def)
next
  fix s node_info now s' assume "ptrs_inv s" "HandleNodeAdded s node_info now = Inr s'"
  then show "ptrs_inv s'" by (rule ptrs_inv_added)
next
  fix s t s' assume "ptrs_inv s" "TryPullResourceReport_loop s t = Inr s'"
  then show "ptrs_inv s'" by (rule ptrs_inv_loop)
next
  fix s :: poller and i ok r assume "ptrs_inv s" "i < length (raylet_requests s)"
  then show "ptrs_inv (RequestResourceReport_callback
            (s\<lparr>raylet_requests := take i (raylet_requests s) @ drop (Suc i) (raylet_requests s),
               completed_callbacks := completed_callbacks s @ [raylet_requests s ! i]\<rparr>)
            (raylet_requests s ! i) ok r)" by (rule ptrs_inv_callback)
next
  fix s :: poller and j assume "ptrs_inv s"
  then show "ptrs_inv (s\<lparr>completed_callbacks :=
               take j (completed_callbacks s) @ drop (Suc j) (completed_callbacks s)\<rparr>)"
    by (rule ptrs_inv_destroyed)
next
  fix s :: poller and cb hs now
  assume "ptrs_inv s" "polling_service s = PostedNodeResourceReportReceived cb # hs"
  then show "ptrs_inv (NodeResourceReportReceived (s\<lparr>polling_service := hs\<rparr>)
      (callback_state s cb) now)" by (rule ptrs_inv_received)
qed

lemma ptrs_inv_run: "run (GcsResourceReportPoller m period) evs = Inr s \<Longrightarrow> ptrs_inv s"
  by (rule run_invariant[where P = ptrs_inv, OF ptrs_inv_step])
     (simp_all add: ptrs_inv_parts GcsResourceReportPoller_def waiting_def completing_def
        under_way_def)

lemma filter_key_distinct:
  "distinct (map f xs) \<Longrightarrow> length (filter (\<lambda>x. f x = k) xs) \<le> Suc 0"
proof (induction xs)
  case Nil
  then show ?case by simp
next
  case (Cons x xs)
  show ?case
  proof (cases "f x = k")
    case True
    then have "k \<notin> f ` set xs" using Cons.prems by auto
    then have "filter (\<lambda>x. f x = k) xs = []" by (auto simp: filter_empty_conv)
    then show ?thesis using True by simp
  next
    case False
    then show ?thesis using Cons by simp
  qed
qed

subsection \<open>State objects that cannot come back\<close>

lemma gone_parts:
  "gone p s \<longleftrightarrow>
     p < length (heap s) \<and> p \<notin> set (to_pull_queue s) \<and> p \<notin> set (waiting s) \<and>
     p \<notin> set (completing s)"
  by (auto simp: gone_def outstanding_parts)

lemma under_way_valid: "ptrs_inv s \<Longrightarrow> \<forall>cb \<in> set (under_way s). cb < length (requested s)"
  by (simp add: ptrs_inv_parts)

lemma gone_pull:
  assumes "ptrs_inv s" and "gone p s" and "to_pull_queue s = p' # q"
  shows "gone p (PullResourceReport (s\<lparr>to_pull_queue := q\<rparr>) p')"
proof -
  let ?s1 = "s\<lparr>to_pull_queue := q\<rparr>"
  have "\<forall>cb \<in> set (under_way ?s1). cb < length (requested ?s1)"
    using under_way_valid[OF assms(1)] by simp
  from parts_pull[OF this, of p']
  have w: "waiting (PullResourceReport ?s1 p') = waiting s @ [p']"
    and c: "completing (PullResourceReport ?s1 p') = completing s" by simp_all
  have f: "to_pull_queue (PullResourceReport ?s1 p') = q"
    "heap (PullResourceReport ?s1 p') = heap s"
    by (simp_all add: PullResourceReport_def)
  show ?thesis using assms(2,3) unfolding gone_parts w c f by auto
qed

lemma gone_loop:
  assumes "ptrs_inv s" and "gone p s" and "TryPullResourceReport_loop s t = Inr s'"
  shows "gone p s'"
proof -
  have "ptrs_inv s' \<and> gone p s'"
  proof (rule loop_invariant[where P = "\<lambda>x. ptrs_inv x \<and> gone p x", OF _ assms(3)])
    show "ptrs_inv s \<and> gone p s" using assms by simp
  next
    fix x :: poller and p' q
    assume "ptrs_inv x \<and> gone p x" "to_pull_queue x = p' # q"
    then show "ptrs_inv (x\<lparr>to_pull_queue := q\<rparr>) \<and> gone p (x\<lparr>to_pull_queue := q\<rparr>)"
      using ptrs_inv_pop[of x p' q] by (simp add: gone_parts)
  next
    fix x :: poller and p' q
    assume "ptrs_inv x \<and> gone p x" "to_pull_queue x = p' # q"
    then show "ptrs_inv (PullResourceReport (x\<lparr>to_pull_queue := q\<rparr>) p') \<and>
               gone p (PullResourceReport (x\<lparr>to_pull_queue := q\<rparr>) p')"
      using ptrs_inv_pull[of x p' q] gone_pull[of x p p' q] by simp
  qed
  then show ?thesis by simp
qed

lemma gone_callback:
  assumes "gone p s" and "i < length (raylet_requests s)"
  shows "gone p (RequestResourceReport_callback
            (s\<lparr>raylet_requests := take i (raylet_requests s) @ drop (Suc i) (raylet_requests s),
               completed_callbacks := completed_callbacks s @ [raylet_requests s ! i]\<rparr>)
            (raylet_requests s ! i) ok r)"
proof -
  let ?s' = "RequestResourceReport_callback
            (s\<lparr>raylet_requests := take i (raylet_requests s) @ drop (Suc i) (raylet_requests s),
               completed_callbacks := completed_callbacks s @ [raylet_requests s ! i]\<rparr>)
            (raylet_requests s ! i) ok r"
  define W where "W = waiting s"
  have i: "i < length W" using assms(2) by (simp add: W_def waiting_def)
  have w: "waiting ?s' = take i W @ drop (Suc i) W"
    and c: "completing ?s' = completing s @ (if ok then [W ! i] else [])"
    using parts_callback[OF assms(2), of ok r] by (simp_all add: W_def)
  have sub: "set (take i W @ drop (Suc i) W) \<subseteq> set W" by (rule remove_nth_set)
  have mem: "W ! i \<in> set W" using i by simp
  have f: "to_pull_queue ?s' = to_pull_queue s" "heap ?s' = heap s"
    by (simp_all add: RequestResourceReport_callback_def)
  have "p \<notin> set W" using assms(1) by (simp add: gone_parts W_def)
  then have "p \<notin> set (take i W @ drop (Suc i) W)" "p \<noteq> W ! i" using sub mem by auto
  then show ?thesis using assms(1) unfolding gone_parts w c f by auto
qed

lemma gone_received:
  assumes "ptrs_inv s" and "gone p s"
    and "polling_service s = PostedNodeResourceReportReceived cb # hs"
  shows "gone p (NodeResourceReportReceived (s\<lparr>polling_service := hs\<rparr>) (callback_state s cb) now)"
proof -
  let ?s1 = "s\<lparr>polling_service := hs\<rparr>"
  let ?s' = "NodeResourceReportReceived ?s1 (callback_state s cb) now"
  have cs: "completing s = callback_state s cb # completing ?s1"
    and w: "waiting ?s' = waiting s" and c: "completing ?s' = completing ?s1"
    using parts_received[OF assms(3)] by simp_all
  have len: "length (heap ?s') = length (heap s)"
    by (simp add: NodeResourceReportReceived_def Let_def)
  have q: "to_pull_queue ?s' = to_pull_queue s \<or>
           to_pull_queue ?s' = to_pull_queue s @ [callback_state s cb]"
    by (simp add: NodeResourceReportReceived_def Let_def)
  show ?thesis using assms(2) q unfolding gone_parts w c len cs by auto
qed

lemma gone_step:
  assumes "ptrs_inv s" and "gone p s" and "step s e = Inr s'"
  shows "gone p s'"
proof -
  have "ptrs_inv s' \<and> gone p s'"
  proof (rule step_preserves[where P = "\<lambda>x. ptrs_inv x \<and> gone p x", OF _ assms(3)])
    show "ptrs_inv s \<and> gone p s" using assms by simp
  next
    fix s s' assume a: "ptrs_inv s \<and> gone p s" "Start s = Inr s'"
    then have "ptrs_inv s'" using ptrs_inv_step[of s CallStart s'] by simp
    moreover have "gone p s'" using a by (auto simp: gone_parts Start_def split: if_splits)
    ultimately show "ptrs_inv s' \<and> gone p s'" by simp
  next
    fix s s' assume a: "ptrs_inv s \<and> gone p s" "Stop s = Inr s'"
    then have "ptrs_inv s'" using ptrs_inv_step[of s CallStop s'] by simp
    moreover have "gone p s'" using a
      by (auto simp: gone_parts Stop_def Let_def split: if_splits option.splits)
    ultimately show "ptrs_inv s' \<and> gone p s'" by simp
  next
    fix s node_info now s'
    assume a: "ptrs_inv s \<and> gone p s" "HandleNodeAdded s node_info now = Inr s'"
    then have "ptrs_inv s'" using ptrs_inv_added by blast
    moreover have "to_pull_queue s' = length (heap s) # to_pull_queue s"
      "length (heap s') = Suc (length (heap s))"
      using a(2) by (auto simp: HandleNodeAdded_def Let_def split: if_splits)
    then have "gone p s'" using a(1) parts_added[OF a(2)] by (auto simp: gone_parts)
    ultimately show "ptrs_inv s' \<and> gone p s'" by simp
  next
    fix s :: poller and node_info assume a: "ptrs_inv s \<and> gone p s"
    then show "ptrs_inv (HandleNodeRemoved s node_info) \<and> gone p (HandleNodeRemoved s node_info)"
      by (simp add: gone_parts ptrs_inv_parts HandleNodeRemoved_def)
  next
    fix s t s' assume "ptrs_inv s \<and> gone p s" "TryPullResourceReport_loop s t = Inr s'"
    then show "ptrs_inv s' \<and> gone p s'" using ptrs_inv_loop gone_loop by blast
  next
    fix s :: poller and i ok r
    assume "ptrs_inv s \<and> gone p s" "i < length (raylet_requests s)"
    then show "ptrs_inv (RequestResourceReport_callback
            (s\<lparr>raylet_requests := take i (raylet_requests s) @ drop (Suc i) (raylet_requests s),
               completed_callbacks := completed_callbacks s @ [raylet_requests s ! i]\<rparr>)
            (raylet_requests s ! i) ok r) \<and>
          gone p (RequestResourceReport_callback
            (s\<lparr>raylet_requests := take i (raylet_requests s) @ drop (Suc i) (raylet_requests s),
               completed_callbacks := completed_callbacks s @ [raylet_requests s ! i]\<rparr>)
            (raylet_requests s ! i) ok r)"
      using ptrs_inv_callback gone_callback by blast
  next
    fix s :: poller and j assume "ptrs_inv s \<and> gone p s"
    then show "ptrs_inv (s\<lparr>completed_callbacks :=
               take j (completed_callbacks s) @ drop (Suc j) (completed_callbacks s)\<rparr>) \<and>
          gone p (s\<lparr>completed_callbacks :=
               take j (completed_callbacks s) @ drop (Suc j) (completed_callbacks s)\<rparr>)"
      using ptrs_inv_destroyed[of s j] by (simp add: gone_parts)
  next
    fix s :: poller and hs
    assume a: "ptrs_inv s \<and> gone p s" "polling_service s = PostedTryPullResourceReport # hs"
    then have "ptrs_inv (s\<lparr>polling_service := hs\<rparr>)"
      by (simp add: ptrs_inv_parts parts_taken under_way_def)
    then show "ptrs_inv (s\<lparr>polling_service := hs\<rparr>) \<and> gone p (s\<lparr>polling_service := hs\<rparr>)"
      using a by (simp add: gone_parts parts_taken)
  next
    fix s :: poller and cb hs now
    assume "ptrs_inv s \<and> gone p s" "polling_service s = PostedNodeResourceReportReceived cb # hs"
    then show "ptrs_inv (NodeResourceReportReceived (s\<lparr>polling_service := hs\<rparr>)
                  (callback_state s cb) now) \<and>
          gone p (NodeResourceReportReceived (s\<lparr>polling_service := hs\<rparr>)
                  (callback_state s cb) now)"
      using ptrs_inv_received gone_received by blast
  qed
  then show ?thesis by simp
qed

lemma gone_run: "ptrs_inv s \<Longrightarrow> gone p s \<Longrightarrow> run s evs = Inr s' \<Longrightarrow> gone p s'"
proof -
  assume a: "ptrs_inv s" "gone p s" "run s evs = Inr s'"
  have "ptrs_inv s' \<and> gone p s'"
    by (rule run_invariant[where P = "\<lambda>x. ptrs_inv x \<and> gone p x" and s = s and evs = evs])
       (use a in \<open>auto intro: gone_step ptrs_inv_step\<close>)
  then show ?thesis by simp
qed

lemma discarded_is_gone:
  assumes "ptrs_inv s" and "polling_service s = PostedNodeResourceReportReceived cb # hs"
    and "nodes_count (nodes s) (node_id (heap s ! callback_state s cb)) = 0"
  shows "gone (callback_state s cb)
           (NodeResourceReportReceived (s\<lparr>polling_service := hs\<rparr>) (callback_state s cb) now)"
proof -
  let ?p = "callback_state s cb"
  let ?s1 = "s\<lparr>polling_service := hs\<rparr>"
  let ?s' = "NodeResourceReportReceived ?s1 ?p now"
  define C where "C = completing ?s1"
  have cs: "completing s = ?p # C" and w: "waiting ?s' = waiting s" and c: "completing ?s' = C"
    using parts_received[OF assms(2)] by (simp_all add: C_def)
  have d: "distinct (to_pull_queue s @ waiting s @ ?p # C)"
    and v: "?p < length (heap s)"
    using assms(1) cs by (simp_all add: ptrs_inv_parts)
  have f: "to_pull_queue ?s' = to_pull_queue s" "heap ?s' = heap s"
    using assms(3) by (simp_all add: NodeResourceReportReceived_def Let_def)
  show ?thesis using d v unfolding gone_parts w c f by auto
qed

subsection \<open>The registry\<close>

lemma registry_inv_step: "registry_inv s \<Longrightarrow> step s e = Inr s' \<Longrightarrow> registry_inv s'"
proof (erule step_preserves, assumption)
  fix s s' assume "registry_inv s" "Start s = Inr s'"
  then show "registry_inv s'" by (auto simp: registry_inv_def Start_def split: if_splits)
next
  fix s s' assume "registry_inv s" "Stop s = Inr s'"
  then show "registry_inv s'"
    by (auto simp: registry_inv_def Stop_def Let_def split: if_splits option.splits)
next
  fix s node_info now s' assume "registry_inv s" "HandleNodeAdded s node_info now = Inr s'"
  then show "registry_inv s'"
    by (auto simp: registry_inv_def HandleNodeAdded_def Let_def nodes_count_def nodes_emplace_def
          split: if_splits)
next
  fix s :: poller and node_info assume "registry_inv s"
  then show "registry_inv (HandleNodeRemoved s node_info)"
    by (simp add: registry_inv_def HandleNodeRemoved_def nodes_erase_def distinct_map_filter)
next
  fix s t s' assume "registry_inv s" "TryPullResourceReport_loop s t = Inr s'"
  then show "registry_inv s'" using loop_frame[of s t s'] by (simp add: registry_inv_def)
qed (simp_all add: registry_inv_def RequestResourceReport_callback_def
       NodeResourceReportReceived_def Let_def)

lemma registry_inv_run: "run (GcsResourceReportPoller m period) evs = Inr s \<Longrightarrow> registry_inv s"
  by (rule run_invariant[where P = registry_inv, OF registry_inv_step])
     (simp_all add: registry_inv_def GcsResourceReportPoller_def)

subsection \<open>Requests sent for a node that is not registered\<close>

lemma node_id_update:
  "node_id ((h[p := (h ! p)\<lparr>next_pull_time := t\<rparr>]) ! q) = node_id (h ! q)"
proof (cases "p < length h")
  case True
  then show ?thesis by (cases "q = p") simp_all
next
  case False
  then have "h[p := (h ! p)\<lparr>next_pull_time := t\<rparr>] = h" by (simp add: list_update_beyond)
  then show ?thesis by simp
qed







subsection \<open>An entry taken from the queue for a node that is not registered\<close>


lemma loop_dangling:
  assumes "inflight_pulls s < max_concurrent_pulls s" and "to_pull_queue s = p # q"
    and "\<not> next_pull_time (heap s ! p) <s t"
    and "\<not> alive (s\<lparr>to_pull_queue := q\<rparr>) p"
  shows "TryPullResourceReport_loop s t = Inl UseAfterFree"
  using assms by (subst TryPullResourceReport_loop.simps) (simp add: Let_def)


subsection \<open>The node ids of the queued and requested states\<close>

lemma live_ids_parts:
  "live_ids s = map (\<lambda>p. node_id (heap s ! p)) (to_pull_queue s @ waiting s @ completing s)"
  by (simp add: live_ids_def outstanding_parts)

lemma live_ids_frame [simp]:
  "live_ids (s\<lparr>polling_thread := th\<rparr>) = live_ids s"
  "live_ids (s\<lparr>polling_service_stopped := b\<rparr>) = live_ids s"
  "live_ids (s\<lparr>ticker_started := b\<rparr>) = live_ids s"
  "live_ids (s\<lparr>nodes := ns\<rparr>) = live_ids s"
  "live_ids (s\<lparr>completed_callbacks := cs\<rparr>) = live_ids s"
  by (simp_all add: live_ids_parts)

lemma live_ids_pull:
  assumes "ptrs_inv s" and "distinct (live_ids s)" and "to_pull_queue s = p # q"
  shows "distinct (live_ids (PullResourceReport (s\<lparr>to_pull_queue := q\<rparr>) p))"
proof -
  let ?s1 = "s\<lparr>to_pull_queue := q\<rparr>"
  let ?s' = "PullResourceReport ?s1 p"
  define f where "f = (\<lambda>p. node_id (heap s ! p))"
  define A where "A = map f q"
  define W where "W = map f (waiting s)"
  define C where "C = map f (completing s)"
  define x where "x = f p"
  have "\<forall>cb \<in> set (under_way ?s1). cb < length (requested ?s1)"
    using under_way_valid[OF assms(1)] by simp
  from parts_pull[OF this, of p]
  have w: "waiting ?s' = waiting s @ [p]" and c: "completing ?s' = completing s" by simp_all
  have f: "to_pull_queue ?s' = q" "heap ?s' = heap s" by (simp_all add: PullResourceReport_def)
  have old: "distinct (x # A @ W @ C)"
    using assms(2,3) by (simp add: live_ids_parts f_def A_def W_def C_def x_def)
  have new: "live_ids ?s' = A @ W @ [x] @ C"
    unfolding live_ids_parts w c f by (simp add: f_def A_def W_def C_def x_def)
  show ?thesis unfolding new using old by auto
qed

lemma live_ids_loop:
  assumes "ptrs_inv s" and "distinct (live_ids s)" and "TryPullResourceReport_loop s t = Inr s'"
  shows "distinct (live_ids s')"
proof -
  let ?P = "\<lambda>x. ptrs_inv x \<and> distinct (live_ids x)"
  have "?P s'"
  proof (rule loop_invariant[where P = ?P, OF _ assms(3)])
    show "?P s" using assms by simp
  next
    fix x :: poller and p q assume "?P x" "to_pull_queue x = p # q"
    then show "?P (x\<lparr>to_pull_queue := q\<rparr>)"
      using ptrs_inv_pop[of x p q] by (simp add: live_ids_parts)
  next
    fix x :: poller and p q assume "?P x" "to_pull_queue x = p # q"
    then show "?P (PullResourceReport (x\<lparr>to_pull_queue := q\<rparr>) p)"
      using ptrs_inv_pull[of x p q] live_ids_pull[of x p q] by simp
  qed
  then show ?thesis by simp
qed

lemma live_ids_callback:
  assumes "distinct (live_ids s)" and "i < length (raylet_requests s)"
  shows "distinct (live_ids (RequestResourceReport_callback
           (s\<lparr>raylet_requests := take i (raylet_requests s) @ drop (Suc i) (raylet_requests s),
              completed_callbacks := completed_callbacks s @ [raylet_requests s ! i]\<rparr>)
           (raylet_requests s ! i) ok r))"
proof -
  let ?rs = "raylet_requests s"
  let ?s' = "RequestResourceReport_callback
           (s\<lparr>raylet_requests := take i ?rs @ drop (Suc i) ?rs,
              completed_callbacks := completed_callbacks s @ [?rs ! i]\<rparr>) (?rs ! i) ok r"
  define f where "f = (\<lambda>p. node_id (heap s ! p))"
  define ws where "ws = waiting s"
  define A where "A = map f (to_pull_queue s)"
  define B1 where "B1 = map f (take i ws)"
  define B2 where "B2 = map f (drop (Suc i) ws)"
  define C where "C = map f (completing s)"
  define x where "x = f (ws ! i)"
  have i: "i < length ws" using assms(2) by (simp add: ws_def waiting_def)
  have w: "waiting ?s' = take i ws @ drop (Suc i) ws"
    and c: "completing ?s' = completing s @ (if ok then [ws ! i] else [])"
    using parts_callback[OF assms(2), of ok r] by (simp_all add: ws_def)
  have fr: "to_pull_queue ?s' = to_pull_queue s" "heap ?s' = heap s"
    by (simp_all add: RequestResourceReport_callback_def)
  have "map f ws = map f (take i ws @ ws ! i # drop (Suc i) ws)"
    using id_take_nth_drop[OF i] by simp
  then have rs: "map f ws = B1 @ x # B2" by (simp add: B1_def B2_def x_def)
  have "live_ids s = A @ map f ws @ C"
    by (simp add: live_ids_parts f_def A_def C_def ws_def)
  then have old: "distinct (A @ B1 @ x # B2 @ C)" using assms(1) rs by simp
  have new: "live_ids ?s' = A @ B1 @ B2 @ C @ (if ok then [x] else [])"
    unfolding live_ids_parts w c fr by (simp add: f_def A_def B1_def B2_def C_def x_def)
  show ?thesis unfolding new using old by auto
qed

lemma live_ids_received:
  assumes "distinct (live_ids s)" and "polling_service s = PostedNodeResourceReportReceived cb # hs"
  shows "distinct (live_ids (NodeResourceReportReceived (s\<lparr>polling_service := hs\<rparr>)
           (callback_state s cb) now))"
proof -
  let ?p = "callback_state s cb"
  let ?s1 = "s\<lparr>polling_service := hs\<rparr>"
  let ?s' = "NodeResourceReportReceived ?s1 ?p now"
  define f where "f = (\<lambda>p. node_id (heap s ! p))"
  define A where "A = map f (to_pull_queue s)"
  define B where "B = map f (waiting s)"
  define C where "C = map f (completing ?s1)"
  define x where "x = f ?p"
  have cs: "completing s = ?p # completing ?s1"
    and w: "waiting ?s' = waiting s" and c: "completing ?s' = completing ?s1"
    using parts_received[OF assms(2)] by simp_all
  have f': "(\<lambda>q. node_id (heap ?s' ! q)) = f"
    by (rule ext) (simp add: NodeResourceReportReceived_def Let_def node_id_update f_def)
  have "live_ids s = A @ B @ x # C"
    unfolding live_ids_parts cs by (simp add: f_def A_def B_def C_def x_def)
  then have old: "distinct (A @ B @ x # C)" using assms(1) by simp
  have "to_pull_queue ?s' = to_pull_queue s \<or> to_pull_queue ?s' = to_pull_queue s @ [?p]"
    by (simp add: NodeResourceReportReceived_def Let_def)
  then have q: "map f (to_pull_queue ?s') = A \<or> map f (to_pull_queue ?s') = A @ [x]"
    by (auto simp: A_def x_def)
  have "live_ids ?s' = map f (to_pull_queue ?s') @ B @ C"
    unfolding live_ids_parts f' w c by (simp add: B_def C_def)
  then have "live_ids ?s' = A @ B @ C \<or> live_ids ?s' = A @ [x] @ B @ C"
    using q by auto
  then show ?thesis using old by auto
qed

lemma live_ids_added:
  assumes "ptrs_inv s" and "distinct (live_ids s)"
    and "HandleNodeAdded s node_info now = Inr s'"
    and "FromBinary (info_node_id node_info) \<notin> set (live_ids s)"
  shows "distinct (live_ids s')"
proof -
  let ?k = "FromBinary (info_node_id node_info)"
  from assms(3) obtain obj ns where s': "s' = s\<lparr>heap := heap s @ [obj], nodes := ns,
      to_pull_queue := length (heap s) # to_pull_queue s,
      polling_service := polling_service s @ [PostedTryPullResourceReport]\<rparr>"
    and obj: "node_id obj = ?k"
    by (auto simp: HandleNodeAdded_def Let_def split: if_splits)
  define L where "L = to_pull_queue s @ waiting s @ completing s"
  have w: "waiting s' = waiting s" and c: "completing s' = completing s"
    using parts_added[OF assms(3)] by simp_all
  have v: "\<forall>p \<in> set L. p < length (heap s)"
    using assms(1) by (auto simp: ptrs_inv_parts L_def)
  then have "map (\<lambda>p. node_id ((heap s @ [obj]) ! p)) L = map (\<lambda>p. node_id (heap s ! p)) L"
    by (intro map_cong refl) (simp add: nth_append)
  moreover have "live_ids s' = node_id ((heap s @ [obj]) ! length (heap s)) #
      map (\<lambda>p. node_id ((heap s @ [obj]) ! p)) L"
    unfolding live_ids_parts w c by (simp add: s' L_def)
  ultimately have "live_ids s' = ?k # live_ids s"
    by (simp add: live_ids_parts L_def obj)
  then show ?thesis using assms(2,4) by simp
qed

lemma live_ids_step:
  assumes "ptrs_inv s" and "distinct (live_ids s)" and "step s e = Inr s'"
    and "\<forall>node_info now. e = NodeAdded node_info now \<longrightarrow>
           FromBinary (info_node_id node_info) \<notin> set (live_ids s)"
  shows "distinct (live_ids s')"
proof (cases "\<exists>node_info now. e = NodeAdded node_info now")
  case True
  then obtain node_info now where e: "e = NodeAdded node_info now" by blast
  then have "HandleNodeAdded s node_info now = Inr s'" using assms(3) by simp
  then show ?thesis using assms(1,2,4) e by (auto intro: live_ids_added)
next
  case False
  let ?P = "\<lambda>x. ptrs_inv x \<and> distinct (live_ids x)"
  have "?P s" using assms(1,2) by simp
  then have "?P s'" using assms(3)
  proof (rule step_preserves_event[where P = ?P])
    fix x x' assume a: "?P x" "Start x = Inr x'"
    then have "ptrs_inv x'" using ptrs_inv_step[of x CallStart x'] by simp
    then show "?P x'" using a by (auto simp: Start_def split: if_splits)
  next
    fix x x' assume a: "?P x" "Stop x = Inr x'"
    then have "ptrs_inv x'" using ptrs_inv_step[of x CallStop x'] by simp
    then show "?P x'" using a by (auto simp: Stop_def Let_def split: if_splits option.splits)
  next
    fix x :: poller and node_info now x' assume "e = NodeAdded node_info now"
    then show "?P x'" using False by simp
  next
    fix x :: poller and node_info assume "?P x"
    then show "?P (HandleNodeRemoved x node_info)"
      by (simp add: HandleNodeRemoved_def ptrs_inv_parts)
  next
    fix x t x' assume "?P x" "TryPullResourceReport_loop x t = Inr x'"
    then show "?P x'" using ptrs_inv_loop live_ids_loop by blast
  next
    fix x :: poller and i ok r assume "?P x" "i < length (raylet_requests x)"
    then show "?P (RequestResourceReport_callback
            (x\<lparr>raylet_requests := take i (raylet_requests x) @ drop (Suc i) (raylet_requests x),
               completed_callbacks := completed_callbacks x @ [raylet_requests x ! i]\<rparr>)
            (raylet_requests x ! i) ok r)"
      using ptrs_inv_callback live_ids_callback by blast
  next
    fix x :: poller and j assume "?P x"
    then show "?P (x\<lparr>completed_callbacks :=
               take j (completed_callbacks x) @ drop (Suc j) (completed_callbacks x)\<rparr>)"
      using ptrs_inv_destroyed[of x j] by simp
  next
    fix x :: poller and hs assume "?P x" "polling_service x = PostedTryPullResourceReport # hs"
    then show "?P (x\<lparr>polling_service := hs\<rparr>)"
      by (simp add: live_ids_parts ptrs_inv_parts parts_taken under_way_def)
  next
    fix x :: poller and cb hs now
    assume "?P x" "polling_service x = PostedNodeResourceReportReceived cb # hs"
    then show "?P (NodeResourceReportReceived (x\<lparr>polling_service := hs\<rparr>)
        (callback_state x cb) now)"
      using ptrs_inv_received live_ids_received by blast
  qed
  then show ?thesis by simp
qed

lemma live_ids_run:
  assumes "ptrs_inv s" and "distinct (live_ids s)" and "run s evs = Inr s'" and "adds_fresh s evs"
  shows "distinct (live_ids s')"
  using assms
proof (induction evs arbitrary: s)
  case Nil
  then show ?case by simp
next
  case (Cons e evs)
  from Cons.prems(3) obtain s1 where s1: "step s e = Inr s1" and rest: "run s1 evs = Inr s'"
    by (auto split: sum.splits)
  have fresh: "\<forall>node_info now. e = NodeAdded node_info now \<longrightarrow>
      FromBinary (info_node_id node_info) \<notin> set (live_ids s)"
    using Cons.prems(4) by auto
  have next_fresh: "adds_fresh s1 evs" using Cons.prems(4) s1 by simp
  have "distinct (live_ids s1)" using live_ids_step[OF Cons.prems(1,2) s1 fresh] .
  moreover have "ptrs_inv s1" using ptrs_inv_step[OF Cons.prems(1) s1] .
  ultimately show ?case using Cons.IH rest next_fresh by blast
qed

subsection \<open>A poller that was never started\<close>

lemma not_started_step:
  "polling_thread s = None \<Longrightarrow> step s e = Inr s' \<Longrightarrow> e \<noteq> CallStart \<Longrightarrow> polling_thread s' = None"
  by (cases e)
     (auto simp: Stop_def Let_def HandleNodeAdded_def HandleNodeRemoved_def service_running_def
        RequestResourceReport_callback_def split: if_splits)

lemma not_started_run:
  "polling_thread s = None \<Longrightarrow> run s evs = Inr s' \<Longrightarrow> CallStart \<notin> set evs \<Longrightarrow> polling_thread s' = None"
proof (induction evs arbitrary: s)
  case Nil
  then show ?case by simp
next
  case (Cons e evs)
  from Cons.prems(2) obtain s1 where s1: "step s e = Inr s1" and rest: "run s1 evs = Inr s'"
    by (auto split: sum.splits)
  have "polling_thread s1 = None" using not_started_step[OF Cons.prems(1) s1] Cons.prems(3) by auto
  then show ?case using Cons.IH rest Cons.prems(3) by simp
qed

lemma started_step:
  "polling_thread s \<noteq> None \<Longrightarrow> step s e = Inr s' \<Longrightarrow> polling_thread s' \<noteq> None"
proof (erule step_preserves, assumption)
  fix s s' assume "polling_thread s \<noteq> None" "Start s = Inr s'"
  then show "polling_thread s' \<noteq> None" by (auto simp: Start_def split: if_splits)
next
  fix s s' assume "polling_thread s \<noteq> None" "Stop s = Inr s'"
  then show "polling_thread s' \<noteq> None"
    by (auto simp: Stop_def Let_def split: if_splits option.splits)
next
  fix s node_info now s' assume "polling_thread s \<noteq> None" "HandleNodeAdded s node_info now = Inr s'"
  then show "polling_thread s' \<noteq> None"
    by (auto simp: HandleNodeAdded_def Let_def split: if_splits)
next
  fix s :: poller and t s'
  assume "polling_thread s \<noteq> None" "TryPullResourceReport_loop s t = Inr s'"
  then show "polling_thread s' \<noteq> None" using loop_frame[of s t s'] by simp
qed (simp_all add: HandleNodeRemoved_def RequestResourceReport_callback_def
       NodeResourceReportReceived_def Let_def)

lemma started_run:
  "polling_thread s \<noteq> None \<Longrightarrow> run s evs = Inr s' \<Longrightarrow> polling_thread s' \<noteq> None"
proof (rule run_invariant[where P = "\<lambda>x. polling_thread x \<noteq> None" and s = s and evs = evs])
  fix x e x' assume "polling_thread x \<noteq> None" "step x e = Inr x'"
  then show "polling_thread x' \<noteq> None" by (rule started_step)
qed

section \<open>The claims\<close>

text \<open>
  Claim C1. In the scheduler loop, with capacity available and a non-empty queue, a front
  entry whose \<open>next_pull_time\<close> lies after the current time should stop the loop
  without being removed, and a front entry that is due or overdue should be removed and
  go on to the registry check and the dispatch. The source breaks out of the loop on
  \<^verbatim>\<open>cur_time > to_pull->next_pull_time\<close>, which is the opposite test. Evaluated on the
  state with node A registered and queued with due time 100: at time 50, before the due
  time, the entry is removed and a request is sent; at time 150, after the due time,
  the loop stops and the state is unchanged.
\<close>

theorem due_time_comparison_inverted:
  "run (GcsResourceReportPoller 2 1000) [CallStart, NodeAdded node_A 100] = Inr queued_A \<and>
   inflight_pulls queued_A < max_concurrent_pulls queued_A \<and>
   to_pull_queue queued_A = [0] \<and>
   next_pull_time (heap queued_A ! 0) = 100 \<and>
   nodes_count (nodes queued_A) (node_id (heap queued_A ! 0)) = 1 \<and>
   TryPullResourceReport queued_A 50 = Inr early_pull_A \<and>
   to_pull_queue early_pull_A = [] \<and>
   requested early_pull_A = [0] \<and>
   TryPullResourceReport queued_A 150 = Inr queued_A"
  by code_simp

text \<open>
  Claim C2. Every dispatched pull should give its unit of the counter back exactly once
  when it completes, whether the request succeeded or failed. In the source only the
  branch for an ok status posts \<^verbatim>\<open>NodeResourceReportReceived\<close>, the one place that
  decrements. Evaluated with a maximum of one pull: after the request for node A has
  completed with a failure the counter is still 1 although no pull is under way, and
  node B, added afterwards, is never requested.
\<close>

theorem failed_pull_keeps_counter:
  "run (GcsResourceReportPoller 1 1000) [CallStart, NodeAdded node_A 10, TimerFires 10] =
     Inr dispatched_A \<and>
   inflight_pulls dispatched_A = 1 \<and> raylet_requests dispatched_A = [0] \<and>
   step dispatched_A (RpcCompletes 0 False []) = Inr failed_A \<and>
   inflight_pulls failed_A = 1 \<and> outstanding failed_A = [] \<and>
   polling_service failed_A = [PostedTryPullResourceReport] \<and>
   run failed_A [ServiceRuns 11, NodeAdded node_B 12, ServiceRuns 12, TimerFires 12] =
     Inr starved_B \<and>
   inflight_pulls starved_B = 1 \<and> outstanding starved_B = [] \<and>
   polling_service starved_B = [] \<and>
   to_pull_queue starved_B = [1] \<and> requested starved_B = [0]"
  by code_simp

text \<open>
  Claim C3. After a successful pull of a registered node its \<open>next_pull_time\<close> should be
  the completion time plus the poll period, both in one unit, so that the next request
  comes no earlier than one period later. The source adds \<^verbatim>\<open>poll_period_ms_\<close>, a number
  of milliseconds, to \<^verbatim>\<open>absl::GetCurrentTimeNanos()\<close>, a number of nanoseconds.
  Evaluated with a period of 1000 ms and a completion at 5000000000 ns: the new due time
  is 5000001000 ns, not 6000000000 ns, and a tick 500 ns after the completion sends the
  next request.
\<close>

theorem next_pull_time_mixes_units:
  "run (GcsResourceReportPoller 2 1000)
     [CallStart, NodeAdded node_A 10, TimerFires 10, RpcCompletes 0 True ''r'', ServiceRuns 11] =
     Inr completing_A \<and>
   polling_service completing_A = [PostedNodeResourceReportReceived 0] \<and>
   nodes_count (nodes completing_A) (node_id (heap completing_A ! 0)) = 1 \<and>
   poll_period_ms completing_A = 1000 \<and>
   step completing_A (ServiceRuns 5000000000) = Inr pulled_A \<and>
   next_pull_time (heap pulled_A ! 0) = 5000000000 + 1000 \<and>
   next_pull_time (heap pulled_A ! 0) \<noteq> 5000000000 + 1000 * 1000000 \<and>
   requested pulled_A = [0] \<and>
   Tick pulled_A 5000000500 = Inr repulled_A \<and>
   requested repulled_A = [0, 0]"
  by code_simp

text \<open>
  Claim C4. After any sequence of events from construction, the counter
  \<open>inflight_pulls\<close> is at most \<open>max_concurrent_pulls\<close> as an unsigned number (so it is
  between 0 and the maximum and the decrement has never wrapped around), and every pull
  under way holds one unit of it. A step raises the counter only from a value strictly
  below the maximum; a step lowers it only by running a posted
  \<^verbatim>\<open>NodeResourceReportReceived\<close>, the completion of a pull that was dispatched, and then
  by exactly one.
\<close>

theorem inflight_pulls_bounded:
  "run (GcsResourceReportPoller max_pulls period) evs = Inr s \<Longrightarrow>
     inflight_pulls s \<le> max_pulls \<and>
     unat (inflight_pulls s) \<le> unat max_pulls \<and>
     length (outstanding s) \<le> unat (inflight_pulls s) \<and>
     (\<forall>e s'. step s e = Inr s' \<longrightarrow>
        (unat (inflight_pulls s) < unat (inflight_pulls s') \<longrightarrow> inflight_pulls s < max_pulls) \<and>
        (unat (inflight_pulls s') < unat (inflight_pulls s) \<longrightarrow>
           (\<exists>now p hs. e = ServiceRuns now \<and> service_running s \<and>
              polling_service s = PostedNodeResourceReportReceived p # hs \<and>
              Suc (unat (inflight_pulls s')) = unat (inflight_pulls s))))"
proof -
  assume r: "run (GcsResourceReportPoller max_pulls period) evs = Inr s"
  then have inv: "counter_inv s" by (rule counter_inv_run)
  have m: "max_concurrent_pulls s = max_pulls"
    using run_max[OF r] by (simp add: GcsResourceReportPoller_def)
  have le: "inflight_pulls s \<le> max_pulls" using inv m by (simp add: counter_inv_def)
  then have le': "unat (inflight_pulls s) \<le> unat max_pulls" by (simp add: word_le_nat_alt)
  have out: "length (outstanding s) \<le> unat (inflight_pulls s)" using inv by (simp add: counter_inv_def)
  have up: "inflight_pulls s < max_pulls"
    if "step s e = Inr s'" "unat (inflight_pulls s) < unat (inflight_pulls s')" for e s'
    using step_inflight_up[OF inv that] m by simp
  show ?thesis using le le' out up step_inflight_down[OF inv] by blast
qed

theorem inflight_pulls_bounded_witness:
  "run (GcsResourceReportPoller 2 1000)
     [CallStart, NodeAdded node_A 10, NodeAdded node_B 10, TimerFires 10] = Inr two_dispatched \<and>
   inflight_pulls two_dispatched = 2 \<and>
   inflight_pulls two_dispatched \<le> 2 \<and>
   unat (inflight_pulls two_dispatched) \<le> unat (2 :: 64 word) \<and>
   length (outstanding two_dispatched) \<le> unat (inflight_pulls two_dispatched)"
proof -
  have r: "run (GcsResourceReportPoller 2 1000)
     [CallStart, NodeAdded node_A 10, NodeAdded node_B 10, TimerFires 10] = Inr two_dispatched"
    by code_simp
  have c: "inflight_pulls two_dispatched = 2" by code_simp
  from inflight_pulls_bounded[OF r] show ?thesis
    using r c by simp
qed

text \<open>
  Claim C5, as amended. Every state object, one per add notification, is in at most one
  place: the queue holds it at most once, at most one pull is under way for it, and not
  both. For a node id this gives at most one pull under way, and no queued entry while
  one is under way, after every run in which no id is added while an object with that id
  is still queued or has a pull under way.
\<close>

theorem one_pull_per_state:
  "run (GcsResourceReportPoller max_pulls period) evs = Inr s \<Longrightarrow>
     distinct (to_pull_queue s @ outstanding s) \<and>
     (adds_fresh (GcsResourceReportPoller max_pulls period) evs \<longrightarrow>
        distinct (live_ids s) \<and>
        length (outstanding_for s k) \<le> 1 \<and>
        (outstanding_for s k \<noteq> [] \<longrightarrow> k \<notin> (\<lambda>p. node_id (heap s ! p)) ` set (to_pull_queue s)))"
proof -
  assume r: "run (GcsResourceReportPoller max_pulls period) evs = Inr s"
  let ?c = "GcsResourceReportPoller max_pulls period"
  let ?f = "\<lambda>p. node_id (heap s ! p)"
  have d: "distinct (to_pull_queue s @ outstanding s)"
    using ptrs_inv_run[OF r] by (simp add: ptrs_inv_def)
  have per_id: "distinct (live_ids s) \<and> length (outstanding_for s k) \<le> 1 \<and>
        (outstanding_for s k \<noteq> [] \<longrightarrow> k \<notin> ?f ` set (to_pull_queue s))"
    if fresh: "adds_fresh ?c evs"
  proof -
    have init: "ptrs_inv ?c" "distinct (live_ids ?c)"
      by (simp_all add: ptrs_inv_def live_ids_def GcsResourceReportPoller_def outstanding_def
            under_way_def)
    have dm: "distinct (live_ids s)" using live_ids_run[OF init r fresh] .
    then have "distinct (map ?f (outstanding s))" by (simp add: live_ids_def)
    then have one: "length (outstanding_for s k) \<le> 1"
      unfolding outstanding_for_def using filter_key_distinct[of ?f "outstanding s" k] by simp
    have "k \<notin> ?f ` set (to_pull_queue s)" if "outstanding_for s k \<noteq> []"
    proof -
      from that obtain p where "p \<in> set (outstanding s)" "?f p = k"
        by (auto simp: outstanding_for_def filter_empty_conv)
      then show ?thesis using dm by (auto simp: live_ids_def)
    qed
    with one dm show ?thesis by simp
  qed
  show ?thesis using d per_id by blast
qed

theorem one_pull_per_state_witness:
  "run (GcsResourceReportPoller 2 1000) readd_after_completion = Inr readded_later \<and>
   adds_fresh (GcsResourceReportPoller 2 1000) readd_after_completion \<and>
   to_pull_queue readded_later = [] \<and>
   outstanding readded_later = [2, 1] \<and>
   distinct (to_pull_queue readded_later @ outstanding readded_later) \<and>
   live_ids readded_later = [''B'', ''A''] \<and>
   distinct (live_ids readded_later) \<and>
   outstanding_for readded_later ''A'' = [1] \<and>
   length (outstanding_for readded_later ''A'') \<le> 1"
proof -
  have r: "run (GcsResourceReportPoller 2 1000) readd_after_completion = Inr readded_later"
    by code_simp
  have h1: "adds_fresh (GcsResourceReportPoller 2 1000) readd_after_completion" by code_simp
  have h2: "to_pull_queue readded_later = []" "outstanding readded_later = [2, 1]" by code_simp+
  have h3: "live_ids readded_later = [''B'', ''A'']" by code_simp
  have h4: "outstanding_for readded_later ''A'' = [1]" by code_simp
  from one_pull_per_state[OF r, of "''A''"] show ?thesis
    using r h1 h2 h3 h4 by simp
qed

text \<open>
  Claim C5 as stated fails when a node is removed and added again while the pull for its
  old state is in flight: the registry test is by id, so nothing tells the old state
  from the new one, and two pulls for node A are under way.
\<close>

theorem two_pulls_for_one_node:
  "run (GcsResourceReportPoller 2 1000)
     [CallStart, NodeAdded node_A 10, TimerFires 10, NodeRemoved node_A,
      NodeAdded node_A 20, TimerFires 20] = Inr readded_A \<and>
   raylet_requests readded_A = [0, 1] \<and>
   node_id (heap readded_A ! 0) = ''A'' \<and> node_id (heap readded_A ! 1) = ''A'' \<and>
   outstanding_for readded_A ''A'' = [0, 1] \<and>
   \<not> length (outstanding_for readded_A ''A'') \<le> 1 \<and>
   \<not> adds_fresh (GcsResourceReportPoller 2 1000)
     [CallStart, NodeAdded node_A 10, TimerFires 10, NodeRemoved node_A,
      NodeAdded node_A 20, TimerFires 20]"
  by code_simp

text \<open>
  Claim C6, as amended. The callback of a successful request forwards the payload to the
  resource manager before any registry test, whether the node is registered or not. When
  the posted \<^verbatim>\<open>NodeResourceReportReceived\<close> then runs while the callback that posted it
  still exists, and the id of its state is absent from the registry at that moment, the
  counter is decremented and nothing else changes: queue, heap, registry and resource
  manager stay as they are, and the state is not in the queue then or after any further
  events. When the id is in the registry at that moment, as it is again after the node
  has been added anew, the state goes to the back of the queue.
\<close>

theorem completion_for_removed_node:
  "run (GcsResourceReportPoller max_pulls period) evs = Inr s \<Longrightarrow>
     (i < length (raylet_requests s) \<longrightarrow>
        (\<exists>s1. step s (RpcCompletes i True resources) = Inr s1 \<and>
           gcs_resource_manager s1 = gcs_resource_manager s @ [resources])) \<and>
     (service_running s \<and> polling_service s = PostedNodeResourceReportReceived cb # hs \<and>
      cb \<in> set (completed_callbacks s) \<and>
      nodes_count (nodes s) (node_id (heap s ! callback_state s cb)) = 0 \<longrightarrow>
        (\<exists>s1. step s (ServiceRuns now) = Inr s1 \<and>
           to_pull_queue s1 = to_pull_queue s \<and> heap s1 = heap s \<and> nodes s1 = nodes s \<and>
           gcs_resource_manager s1 = gcs_resource_manager s \<and>
           inflight_pulls s1 = inflight_pulls s - 1 \<and>
           callback_state s cb \<notin> set (to_pull_queue s1) \<and>
           (\<forall>evs' s2. run s1 evs' = Inr s2 \<longrightarrow>
              callback_state s cb \<notin> set (to_pull_queue s2)))) \<and>
     (service_running s \<and> polling_service s = PostedNodeResourceReportReceived cb # hs \<and>
      cb \<in> set (completed_callbacks s) \<and>
      nodes_count (nodes s) (node_id (heap s ! callback_state s cb)) \<noteq> 0 \<longrightarrow>
        (\<exists>s1. step s (ServiceRuns now) = Inr s1 \<and>
           to_pull_queue s1 = to_pull_queue s @ [callback_state s cb] \<and>
           nodes s1 = nodes s \<and>
           gcs_resource_manager s1 = gcs_resource_manager s \<and>
           inflight_pulls s1 = inflight_pulls s - 1))"
proof -
  assume r: "run (GcsResourceReportPoller max_pulls period) evs = Inr s"
  have inv: "ptrs_inv s" using r by (rule ptrs_inv_run)
  let ?p = "callback_state s cb"
  have c: "\<exists>s1. step s (ServiceRuns now) = Inr s1 \<and>
           to_pull_queue s1 = to_pull_queue s @ [?p] \<and>
           nodes s1 = nodes s \<and>
           gcs_resource_manager s1 = gcs_resource_manager s \<and>
           inflight_pulls s1 = inflight_pulls s - 1"
    if "service_running s" "polling_service s = PostedNodeResourceReportReceived cb # hs"
      "cb \<in> set (completed_callbacks s)"
      "nodes_count (nodes s) (node_id (heap s ! ?p)) \<noteq> 0"
    using that by (simp add: callback_state_def NodeResourceReportReceived_def Let_def)
  have a: "\<exists>s1. step s (RpcCompletes i True resources) = Inr s1 \<and>
           gcs_resource_manager s1 = gcs_resource_manager s @ [resources]"
    if "i < length (raylet_requests s)"
    using that by (simp add: RequestResourceReport_callback_def)
  have b: "\<exists>s1. step s (ServiceRuns now) = Inr s1 \<and>
           to_pull_queue s1 = to_pull_queue s \<and> heap s1 = heap s \<and> nodes s1 = nodes s \<and>
           gcs_resource_manager s1 = gcs_resource_manager s \<and>
           inflight_pulls s1 = inflight_pulls s - 1 \<and>
           ?p \<notin> set (to_pull_queue s1) \<and>
           (\<forall>evs' s2. run s1 evs' = Inr s2 \<longrightarrow> ?p \<notin> set (to_pull_queue s2))"
    if run: "service_running s" and ps: "polling_service s = PostedNodeResourceReportReceived cb # hs"
      and live: "cb \<in> set (completed_callbacks s)"
      and un: "nodes_count (nodes s) (node_id (heap s ! ?p)) = 0"
  proof -
    let ?s1 = "NodeResourceReportReceived (s\<lparr>polling_service := hs\<rparr>) ?p now"
    have st: "step s (ServiceRuns now) = Inr ?s1"
      using run ps live by (simp add: callback_state_def)
    have inv1: "ptrs_inv ?s1" using inv ps by (rule ptrs_inv_received)
    have g: "gone ?p ?s1" using inv ps un by (rule discarded_is_gone)
    have later: "?p \<notin> set (to_pull_queue s2)" if "run ?s1 evs' = Inr s2" for evs' s2
      using gone_run[OF inv1 g that] by (simp add: gone_def)
    have frame: "to_pull_queue ?s1 = to_pull_queue s" "heap ?s1 = heap s" "nodes ?s1 = nodes s"
      "gcs_resource_manager ?s1 = gcs_resource_manager s" "inflight_pulls ?s1 = inflight_pulls s - 1"
      using un by (simp_all add: NodeResourceReportReceived_def Let_def)
    have "?p \<notin> set (to_pull_queue ?s1)" using g by (simp add: gone_def)
    then show ?thesis using st frame later by blast
  qed
  show ?thesis using a b c by blast
qed

theorem completion_for_removed_node_witness:
  "run (GcsResourceReportPoller 2 1000)
     [CallStart, NodeAdded node_A 10, TimerFires 10, NodeRemoved node_A] = Inr removed_in_flight \<and>
   0 < length (raylet_requests removed_in_flight) \<and>
   gcs_resource_manager (projr (step removed_in_flight (RpcCompletes 0 True ''r''))) =
     gcs_resource_manager removed_in_flight @ [''r''] \<and>
   run (GcsResourceReportPoller 2 1000)
     [CallStart, NodeAdded node_A 10, TimerFires 10, NodeRemoved node_A,
      RpcCompletes 0 True ''r'', ServiceRuns 11] = Inr removed_completing \<and>
   service_running removed_completing \<and>
   polling_service removed_completing = [PostedNodeResourceReportReceived 0] \<and>
   0 \<in> set (completed_callbacks removed_completing) \<and>
   callback_state removed_completing 0 = 0 \<and>
   nodes_count (nodes removed_completing) (node_id (heap removed_completing ! 0)) = 0 \<and>
   step removed_completing (ServiceRuns 12) = Inr removed_discarded \<and>
   to_pull_queue removed_discarded = to_pull_queue removed_completing \<and>
   inflight_pulls removed_discarded = inflight_pulls removed_completing - 1 \<and>
   run removed_discarded [NodeAdded node_A 13, ServiceRuns 13] =
     Inr (projr (run removed_discarded [NodeAdded node_A 13, ServiceRuns 13])) \<and>
   0 \<notin> set (to_pull_queue (projr (run removed_discarded [NodeAdded node_A 13, ServiceRuns 13]))) \<and>
   run (GcsResourceReportPoller 2 1000)
     [CallStart, NodeAdded node_A 10, TimerFires 10, NodeRemoved node_A,
      RpcCompletes 0 True ''r'', ServiceRuns 11, NodeAdded node_A 12] = Inr readded_completing \<and>
   service_running readded_completing \<and>
   polling_service readded_completing =
     [PostedNodeResourceReportReceived 0, PostedTryPullResourceReport] \<and>
   0 \<in> set (completed_callbacks readded_completing) \<and>
   callback_state readded_completing 0 = 0 \<and>
   nodes_count (nodes readded_completing) (node_id (heap readded_completing ! 0)) \<noteq> 0 \<and>
   to_pull_queue readded_completing = [1] \<and>
   step readded_completing (ServiceRuns 12) = Inr requeued_old_A \<and>
   to_pull_queue requeued_old_A = [1] @ [0]"
proof -
  let ?evs = "[NodeAdded node_A 13, ServiceRuns 13]"
  have r2: "run (GcsResourceReportPoller 2 1000)
     [CallStart, NodeAdded node_A 10, TimerFires 10, NodeRemoved node_A,
      RpcCompletes 0 True ''r'', ServiceRuns 11, NodeAdded node_A 12] = Inr readded_completing"
    by code_simp
  have k1: "service_running readded_completing" by code_simp
  have k2: "polling_service readded_completing =
     [PostedNodeResourceReportReceived 0, PostedTryPullResourceReport]" by code_simp
  have k3: "0 \<in> set (completed_callbacks readded_completing)" by code_simp
  have k4: "callback_state readded_completing 0 = 0" by code_simp
  have k5: "nodes_count (nodes readded_completing) (node_id (heap readded_completing ! 0)) \<noteq> 0"
    by code_simp
  have k6: "to_pull_queue readded_completing = [1]" by code_simp
  have k7: "step readded_completing (ServiceRuns 12) = Inr requeued_old_A" by code_simp
  from completion_for_removed_node[OF r2, of _ _ 0 "[PostedTryPullResourceReport]" 12]
    k1 k2 k3 k4 k5 k6 k7
  have c: "to_pull_queue requeued_old_A = [1] @ [0]" by auto
  have r0: "run (GcsResourceReportPoller 2 1000)
     [CallStart, NodeAdded node_A 10, TimerFires 10, NodeRemoved node_A] = Inr removed_in_flight"
    by code_simp
  have r1: "run (GcsResourceReportPoller 2 1000)
     [CallStart, NodeAdded node_A 10, TimerFires 10, NodeRemoved node_A,
      RpcCompletes 0 True ''r'', ServiceRuns 11] = Inr removed_completing"
    by code_simp
  have h0: "0 < length (raylet_requests removed_in_flight)" by code_simp
  have h1: "service_running removed_completing" by code_simp
  have h2: "polling_service removed_completing = [PostedNodeResourceReportReceived 0]" by code_simp
  have h2a: "0 \<in> set (completed_callbacks removed_completing)" by code_simp
  have h2b: "callback_state removed_completing 0 = 0" by code_simp
  have h3: "nodes_count (nodes removed_completing) (node_id (heap removed_completing ! 0)) = 0"
    by code_simp
  have h4: "run removed_discarded ?evs = Inr (projr (run removed_discarded ?evs))" by code_simp
  have h5: "step removed_completing (ServiceRuns 12) = Inr removed_discarded" by code_simp
  from completion_for_removed_node[OF r0, of 0 "''r''"] h0
  have a: "gcs_resource_manager (projr (step removed_in_flight (RpcCompletes 0 True ''r''))) =
     gcs_resource_manager removed_in_flight @ [''r'']" by auto
  from completion_for_removed_node[OF r1, of _ _ 0 "[]" 12] h1 h2 h2a h2b h3
  obtain s1 where s1: "step removed_completing (ServiceRuns 12) = Inr s1"
    "to_pull_queue s1 = to_pull_queue removed_completing"
    "inflight_pulls s1 = inflight_pulls removed_completing - 1"
    "\<forall>evs' s2. run s1 evs' = Inr s2 \<longrightarrow> 0 \<notin> set (to_pull_queue s2)" by auto
  then have eq: "s1 = removed_discarded" using h5 by simp
  from s1(4) h4 have "0 \<notin> set (to_pull_queue (projr (run removed_discarded ?evs)))"
    unfolding eq by blast
  then show ?thesis using r0 r1 h0 h1 h2 h2a h2b h3 h4 h5 a s1(2,3) eq
      r2 k1 k2 k3 k4 k5 k6 k7 c by simp
qed

text \<open>
  Claim C6 as stated fails in both parts. Node A is removed while its pull is in flight;
  the request then succeeds and the payload is in the resource manager. When node A is
  added again before the posted completion runs, the completion finds the id in the
  registry and puts the old state object back into the queue, behind the new one.
\<close>

theorem removed_node_result_not_discarded:
  "run (GcsResourceReportPoller 2 1000)
     [CallStart, NodeAdded node_A 10, TimerFires 10, NodeRemoved node_A] = Inr removed_in_flight \<and>
   nodes_count (nodes removed_in_flight) ''A'' = 0 \<and>
   raylet_requests removed_in_flight = [0] \<and>
   node_id (heap removed_in_flight ! 0) = ''A'' \<and>
   gcs_resource_manager removed_in_flight = [] \<and>
   run removed_in_flight [RpcCompletes 0 True ''r'', ServiceRuns 11] = Inr removed_completing \<and>
   nodes_count (nodes removed_completing) ''A'' = 0 \<and>
   gcs_resource_manager removed_completing = [''r''] \<and>
   polling_service removed_completing = [PostedNodeResourceReportReceived 0] \<and>
   completed_callbacks removed_completing = [0] \<and>
   to_pull_queue removed_completing = [] \<and>
   run removed_completing [NodeAdded node_A 12, ServiceRuns 12] = Inr requeued_old_A \<and>
   nodes requeued_old_A = [(''A'', 1)] \<and>
   to_pull_queue requeued_old_A = [1, 0]"
  by code_simp




text \<open>
  Claim C8. In every reachable state the registry has no duplicate ids.
  \<^verbatim>\<open>HandleNodeAdded\<close> aborts, on its \<^verbatim>\<open>RAY_CHECK\<close>, exactly when the id is in the
  registry. Otherwise it makes a state object with \<open>next_pull_time\<close> the current time and
  \<open>last_pull_time\<close> at -1, puts it in the registry and at the front of the queue, and
  posts a scheduling attempt. An add after a remove of the same id succeeds and the
  registry then holds the new object.
\<close>

theorem HandleNodeAdded_registry:
  "run (GcsResourceReportPoller max_pulls period) evs = Inr s \<Longrightarrow>
     distinct (map fst (nodes s)) \<and>
     (HandleNodeAdded s node_info now = Inl (NodeAddedTwice (FromBinary (info_node_id node_info)))
        \<longleftrightarrow> FromBinary (info_node_id node_info) \<in> fst ` set (nodes s)) \<and>
     (FromBinary (info_node_id node_info) \<notin> fst ` set (nodes s) \<longrightarrow>
        HandleNodeAdded s node_info now =
          Inr (s\<lparr>heap := heap s @
                   [\<lparr>node_id = FromBinary (info_node_id node_info),
                     address = \<lparr>raylet_id = info_node_id node_info,
                                ip_address = node_manager_address node_info,
                                port = node_manager_port node_info\<rparr>,
                     last_pull_time = - 1, next_pull_time = now\<rparr>],
                 nodes := nodes s @ [(FromBinary (info_node_id node_info), length (heap s))],
                 to_pull_queue := length (heap s) # to_pull_queue s,
                 polling_service := polling_service s @ [PostedTryPullResourceReport]\<rparr>)) \<and>
     (\<exists>s'. HandleNodeAdded (HandleNodeRemoved s node_info) node_info now = Inr s' \<and>
        map_of (nodes s') (FromBinary (info_node_id node_info)) = Some (length (heap s)) \<and>
        length (heap s') = Suc (length (heap s)) \<and>
        next_pull_time (heap s' ! length (heap s)) = now \<and>
        last_pull_time (heap s' ! length (heap s)) = - 1 \<and>
        to_pull_queue s' = length (heap s) # to_pull_queue s \<and>
        distinct (map fst (nodes s')))"
proof -
  assume r: "run (GcsResourceReportPoller max_pulls period) evs = Inr s"
  let ?k = "FromBinary (info_node_id node_info)"
  have d: "distinct (map fst (nodes s))"
    using registry_inv_run[OF r] by (simp add: registry_inv_def)
  have fails: "HandleNodeAdded s node_info now = Inl (NodeAddedTwice ?k) \<longleftrightarrow> ?k \<in> fst ` set (nodes s)"
    by (simp add: HandleNodeAdded_def Let_def nodes_count_def)
  have fresh: "HandleNodeAdded s node_info now =
          Inr (s\<lparr>heap := heap s @
                   [\<lparr>node_id = ?k,
                     address = \<lparr>raylet_id = info_node_id node_info,
                                ip_address = node_manager_address node_info,
                                port = node_manager_port node_info\<rparr>,
                     last_pull_time = - 1, next_pull_time = now\<rparr>],
                 nodes := nodes s @ [(?k, length (heap s))],
                 to_pull_queue := length (heap s) # to_pull_queue s,
                 polling_service := polling_service s @ [PostedTryPullResourceReport]\<rparr>)"
    if "?k \<notin> fst ` set (nodes s)"
    using that by (simp add: HandleNodeAdded_def Let_def nodes_count_def nodes_emplace_def)
  let ?ns = "nodes_erase (nodes s) ?k"
  have gone: "?k \<notin> fst ` set ?ns" by (auto simp: nodes_erase_def)
  then have none: "map_of ?ns ?k = None" by (simp add: map_of_eq_None_iff)
  have d': "distinct (map fst ?ns)" using d by (simp add: nodes_erase_def distinct_map_filter)
  have again: "\<exists>s'. HandleNodeAdded (HandleNodeRemoved s node_info) node_info now = Inr s' \<and>
        map_of (nodes s') ?k = Some (length (heap s)) \<and>
        length (heap s') = Suc (length (heap s)) \<and>
        next_pull_time (heap s' ! length (heap s)) = now \<and>
        last_pull_time (heap s' ! length (heap s)) = - 1 \<and>
        to_pull_queue s' = length (heap s) # to_pull_queue s \<and>
        distinct (map fst (nodes s'))"
    using gone none d'
    by (simp add: HandleNodeAdded_def HandleNodeRemoved_def Let_def nodes_count_def
          nodes_emplace_def map_add_def)
  show ?thesis using d fails fresh again by blast
qed

theorem HandleNodeAdded_registry_witness:
  "run (GcsResourceReportPoller 2 1000)
     [NodeAdded node_A 10, NodeRemoved node_A, NodeAdded node_A 20] = Inr readded_idle \<and>
   nodes readded_idle = [(''A'', 1)] \<and>
   distinct (map fst (nodes readded_idle)) \<and>
   HandleNodeAdded readded_idle node_A 30 = Inl (NodeAddedTwice ''A'') \<and>
   isl (HandleNodeAdded readded_idle node_B 30) = False \<and>
   isl (HandleNodeAdded (HandleNodeRemoved readded_idle node_A) node_A 30) = False"
proof -
  have r: "run (GcsResourceReportPoller 2 1000)
     [NodeAdded node_A 10, NodeRemoved node_A, NodeAdded node_A 20] = Inr readded_idle"
    by code_simp
  have n: "nodes readded_idle = [(''A'', 1)]" by code_simp
  have a: "FromBinary (info_node_id node_A) = ''A''" "FromBinary (info_node_id node_B) = ''B''"
    by (simp_all add: FromBinary_def node_A_def node_B_def)
  from HandleNodeAdded_registry[OF r, of node_A 30]
  obtain s' where again: "HandleNodeAdded (HandleNodeRemoved readded_idle node_A) node_A 30 = Inr s'"
    by blast
  from HandleNodeAdded_registry[OF r, of node_A 30] HandleNodeAdded_registry[OF r, of node_B 30]
  show ?thesis using r n a again by simp
qed

text \<open>
  Claim C9. After a successful pull of a registered node its \<open>last_pull_time\<close> should
  be the time of that pull, and its state should be at the back of the queue. The source
  gives \<open>last_pull_time\<close> the value -1 when the state object is made and never assigns
  it again. Evaluated: after the successful pull of the registered node A, handled at
  5000000000 while the callback still exists, the state is back in the queue and its
  \<open>last_pull_time\<close> is -1 as before. When the RPC client destroys the callback before
  the posted handler runs, the handler reads the state through a dangling reference and
  the state is not queued again.
\<close>

theorem last_pull_time_not_updated:
  "run (GcsResourceReportPoller 2 1000)
     [CallStart, NodeAdded node_A 10, TimerFires 10, RpcCompletes 0 True ''r'', ServiceRuns 11] =
     Inr completing_A \<and>
   polling_service completing_A = [PostedNodeResourceReportReceived 0] \<and>
   completed_callbacks completing_A = [0] \<and>
   nodes_count (nodes completing_A) (node_id (heap completing_A ! 0)) = 1 \<and>
   gcs_resource_manager completing_A = [''r''] \<and>
   last_pull_time (heap completing_A ! 0) = - 1 \<and>
   step completing_A (ServiceRuns 5000000000) = Inr pulled_A \<and>
   to_pull_queue pulled_A = [0] \<and>
   last_pull_time (heap pulled_A ! 0) = - 1 \<and>
   last_pull_time (heap pulled_A ! 0) \<noteq> 5000000000 \<and>
   run completing_A [CallbackDestroyed 0, ServiceRuns 5000000000] = Inl UseAfterFree"
  by code_simp

text \<open>
  Claim C10. \<^verbatim>\<open>Stop\<close>, and with it the destructor, ends in the null dereference exactly
  when the thread pointer is null. It is null after construction and after any events
  that do not include a start. After a successful \<^verbatim>\<open>Start\<close>, a \<^verbatim>\<open>Stop\<close>, a second
  \<^verbatim>\<open>Stop\<close> and the destructor all end without an error, also when other events
  come between the start and the stop.
\<close>

theorem Stop_needs_Start:
  "(Stop s = Inl NullPointerDereference \<longleftrightarrow> polling_thread s = None) \<and>
   (destructor s = Inl NullPointerDereference \<longleftrightarrow> polling_thread s = None) \<and>
   (run (GcsResourceReportPoller max_pulls period) evs = Inr s \<and> CallStart \<notin> set evs \<longrightarrow>
      Stop s = Inl NullPointerDereference \<and> destructor s = Inl NullPointerDereference) \<and>
   (\<forall>s1. Start s = Inr s1 \<longrightarrow>
      (\<exists>s2 s3. Stop s1 = Inr s2 \<and> Stop s2 = Inr s3 \<and> destructor s3 = Inr s3) \<and>
      (\<forall>evs' s2. run s1 evs' = Inr s2 \<longrightarrow> (\<exists>s3. Stop s2 = Inr s3 \<and> destructor s3 = Inr s3)))"
proof -
  have a: "Stop s = Inl NullPointerDereference \<longleftrightarrow> polling_thread s = None" for s
    by (auto simp: Stop_def Let_def split: option.splits)
  have b: "polling_thread s = None"
    if "run (GcsResourceReportPoller max_pulls period) evs = Inr s" "CallStart \<notin> set evs"
    using not_started_run[OF _ that] by (simp add: GcsResourceReportPoller_def)
  have c: "\<exists>s2 s3. Stop s1 = Inr s2 \<and> Stop s2 = Inr s3 \<and> destructor s3 = Inr s3" if "Start s = Inr s1" for s1
    using that by (auto simp: Start_def Stop_def destructor_def Let_def split: if_splits)
  have d: "\<exists>s3. Stop s2 = Inr s3 \<and> destructor s3 = Inr s3"
    if "Start s = Inr s1" "run s1 evs' = Inr s2" for s1 evs' s2
  proof -
    have "polling_thread s1 \<noteq> None" using that(1) by (auto simp: Start_def split: if_splits)
    then have "polling_thread s2 \<noteq> None" using that(2) by (rule started_run)
    then show ?thesis by (auto simp: Stop_def destructor_def Let_def)
  qed
  show ?thesis using a[of s] b c d by (auto simp: destructor_def)
qed

theorem Stop_needs_Start_witness:
  "polling_thread (GcsResourceReportPoller 2 1000) = None \<and>
   Stop (GcsResourceReportPoller 2 1000) = Inl NullPointerDereference \<and>
   destructor (GcsResourceReportPoller 2 1000) = Inl NullPointerDereference \<and>
   run (GcsResourceReportPoller 2 1000) [NodeAdded node_A 10, NodeRemoved node_A] =
     Inr never_started \<and>
   CallStart \<notin> set [NodeAdded node_A 10, NodeRemoved node_A] \<and>
   Stop never_started = Inl NullPointerDereference \<and>
   Start (GcsResourceReportPoller 2 1000) = Inr started \<and>
   isl (Stop started) = False \<and>
   isl (Stop (projr (Stop started))) = False \<and>
   run started [NodeAdded node_A 10, TimerFires 10] =
     Inr (projr (run started [NodeAdded node_A 10, TimerFires 10])) \<and>
   isl (Stop (projr (run started [NodeAdded node_A 10, TimerFires 10]))) = False"
proof -
  let ?c = "GcsResourceReportPoller 2 1000"
  let ?evs = "[NodeAdded node_A 10, NodeRemoved node_A]"
  let ?evs' = "[NodeAdded node_A 10, TimerFires 10]"
  have n: "polling_thread ?c = None" by (simp add: GcsResourceReportPoller_def)
  have r: "run ?c ?evs = Inr never_started" by code_simp
  have ns: "CallStart \<notin> set ?evs" by simp
  have st: "Start ?c = Inr started" by code_simp
  have r': "run started ?evs' = Inr (projr (run started ?evs'))" by code_simp
  from Stop_needs_Start[of ?c 2 1000 "[]"] n
  have a: "Stop ?c = Inl NullPointerDereference" "destructor ?c = Inl NullPointerDereference"
    by simp_all
  from Stop_needs_Start[of never_started 2 1000 ?evs] r ns
  have b: "Stop never_started = Inl NullPointerDereference" by blast
  from Stop_needs_Start[of ?c 2 1000 "[]"] st
  obtain s2 s3 where "Stop started = Inr s2" "Stop s2 = Inr s3" by blast
  then have c: "isl (Stop started) = False" "isl (Stop (projr (Stop started))) = False"
    by simp_all
  from Stop_needs_Start[of ?c 2 1000 "[]"] st r'
  obtain s4 where "Stop (projr (run started ?evs')) = Inr s4" by blast
  then have d: "isl (Stop (projr (run started ?evs'))) = False" by simp
  show ?thesis using n r ns st r' a b c d by simp
qed

end
